theory Spec2Isabelle
  imports Complex_Main "HOL-Library.AList"
begin

section \<open>Data model of the game server\<close>

text \<open>
  The server keeps three classes of objects: players (plain JavaScript objects created by
  \<open>GameRoom.addPlayer\<close>), the per-room simulation state \<open>GameState\<close> and the room
  \<open>GameRoom\<close>.  JavaScript numbers that hold coordinates are modelled as real numbers
  (the rounding of IEEE doubles is not part of the model); scores, health and coin
  indices are integers.  A JavaScript \<open>Map\<close> is an association list in insertion
  order: \<open>AList.update\<close> is \<open>Map.set\<close> (an existing key keeps its place) and
  \<open>AList.delete\<close> is \<open>Map.delete\<close>.
\<close>

datatype team = Red | Blue

datatype mode = Race | Build | Battle

record powerUp =
  pu_type :: string
  pu_endTime :: nat

record player =
  p_id :: string
  p_username :: string
  p_team :: team
  p_score :: int
  p_x :: real
  p_y :: real
  p_vx :: "real option"
  p_vy :: "real option"
  p_health :: int
  p_powerUps :: "powerUp list"

record coin =
  c_id :: nat
  c_x :: real
  c_y :: real
  c_collected :: bool

record block =
  b_x :: int
  b_y :: int
  b_type :: string
  b_owner :: string

record projectile =
  pr_id :: nat
  pr_owner :: string
  pr_team :: team
  pr_x :: real
  pr_y :: real
  pr_angle :: real
  pr_speed :: real
  pr_damage :: int

text \<open>The object \<open>{red, blue}\<close> of the team scores.\<close>

record tally =
  ts_red :: int
  ts_blue :: int

text \<open>
  The fields of \<open>GameState\<close>.  The field \<open>objects\<close> of the source is set to the empty array
  by the constructor and never read or written again; it is left out.
\<close>

record GameState =
  players :: "(string \<times> player) list"
  currentMode :: mode
  teamScores :: tally
  coins :: "coin list"
  blocks :: "block list"
  projectiles :: "projectile list"

text \<open>The payload of \<open>playerInput\<close>: each of the four fields may be absent.\<close>

record input =
  in_x :: "real option"
  in_y :: "real option"
  in_vx :: "real option"
  in_vy :: "real option"

text \<open>The actions \<open>handleAction\<close> switches on, with the fields of \<open>data\<close> each one reads.\<close>

datatype action =
  CollectCoin int
  | PlaceBlock int int string
  | Shoot real real real
  | UseBoost
  | OtherAction string

text \<open>What the action handlers return (\<open>None\<close> is JavaScript's \<open>null\<close>).\<close>

datatype actionResult =
  CoinResult string int int
  | BlockResult string int int string
  | ShootResult string projectile
  | BoostResult string string

section \<open>GameState.js\<close>

text \<open>
  \<open>updatePlayer pid f ps\<close> applies the mutation \<open>f\<close> to the player object stored under
  \<open>pid\<close>; the map keeps its order and its other entries.  A method that receives a
  player object (a reference into \<open>this.players\<close>) receives here the pair of the key the
  object is stored under and its current fields, and writes back under that key.
\<close>

definition updatePlayer ::
  "string \<Rightarrow> (player \<Rightarrow> player) \<Rightarrow> (string \<times> player) list \<Rightarrow> (string \<times> player) list" where
  "updatePlayer pid f ps = map (\<lambda>(k, p). if k = pid then (k, f p) else (k, p)) ps"

text \<open>\<open>generateCoins\<close>: twenty coins, coin \<open>i\<close> placed by the draws \<open>2 i\<close> and \<open>2 i + 1\<close>
  of \<open>Math.random\<close>.\<close>

definition generateCoins :: "(nat \<Rightarrow> real) \<Rightarrow> coin list" where
  "generateCoins rnd =
     map (\<lambda>i. \<lparr>c_id = i, c_x = rnd (2 * i) * 800, c_y = rnd (2 * i + 1) * 600,
                c_collected = False\<rparr>) [0..<20]"

text \<open>\<open>initializePositions\<close>: the players in map order on a grid of four columns.\<close>

definition initializePositions :: "(string \<times> player) list \<Rightarrow> (string \<times> player) list" where
  "initializePositions ps =
     map (\<lambda>(index, (k, p)).
            (k, p\<lparr>p_x := 100 + real (index mod 4) * 150,
                  p_y := 100 + real (index div 4) * 100,
                  p_vx := Some 0, p_vy := Some 0\<rparr>))
         (zip [0..<length ps] ps)"

text \<open>The constructor.\<close>

definition newGameState :: "(string \<times> player) list \<Rightarrow> (nat \<Rightarrow> real) \<Rightarrow> GameState" where
  "newGameState ps rnd =
     \<lparr>players = initializePositions ps, currentMode = Race,
      teamScores = \<lparr>ts_red = 0, ts_blue = 0\<rparr>, coins = generateCoins rnd,
      blocks = [], projectiles = []\<rparr>"

text \<open>\<open>checkCoinCollisions\<close>: the loop over the coins, threading the player it mutates.\<close>

definition coinDist :: "player \<Rightarrow> coin \<Rightarrow> real" where
  "coinDist p c = sqrt ((p_x p - c_x c)\<^sup>2 + (p_y p - c_y c)\<^sup>2)"

fun checkCoinCollisions :: "player \<Rightarrow> coin list \<Rightarrow> player \<times> coin list" where
  "checkCoinCollisions p [] = (p, [])"
| "checkCoinCollisions p (c # cs) =
     (if \<not> c_collected c \<and> coinDist p c < 30
      then (let (p', cs') = checkCoinCollisions (p\<lparr>p_score := p_score p + 10\<rparr>) cs
            in (p', c\<lparr>c_collected := True\<rparr> # cs'))
      else (let (p', cs') = checkCoinCollisions p cs in (p', c # cs')))"

definition applyInput :: "input \<Rightarrow> player \<Rightarrow> player" where
  "applyInput i p =
     (let p1 = (case in_x i of None \<Rightarrow> p | Some v \<Rightarrow> p\<lparr>p_x := v\<rparr>);
          p2 = (case in_y i of None \<Rightarrow> p1 | Some v \<Rightarrow> p1\<lparr>p_y := v\<rparr>);
          p3 = (case in_vx i of None \<Rightarrow> p2 | Some v \<Rightarrow> p2\<lparr>p_vx := Some v\<rparr>);
          p4 = (case in_vy i of None \<Rightarrow> p3 | Some v \<Rightarrow> p3\<lparr>p_vy := Some v\<rparr>)
      in p4)"

definition updatePlayerInput :: "string \<Rightarrow> input \<Rightarrow> GameState \<Rightarrow> GameState" where
  "updatePlayerInput playerId i gs =
     (case map_of (players gs) playerId of
        None \<Rightarrow> gs
      | Some player \<Rightarrow>
          (let moved = applyInput i player in
           if currentMode gs = Race
           then (let (p', cs') = checkCoinCollisions moved (coins gs)
                 in gs\<lparr>players := updatePlayer playerId (\<lambda>_. p') (players gs), coins := cs'\<rparr>)
           else gs\<lparr>players := updatePlayer playerId (\<lambda>_. moved) (players gs)\<rparr>))"

text \<open>
  \<open>collectCoin\<close>: \<open>this.coins[coinId]\<close> is \<open>undefined\<close> unless \<open>coinId\<close> is an index of
  the array.
\<close>

definition coinAt :: "GameState \<Rightarrow> int \<Rightarrow> coin option" where
  "coinAt gs coinId =
     (if 0 \<le> coinId \<and> nat coinId < length (coins gs) then Some (coins gs ! nat coinId)
      else None)"

definition collectCoin ::
  "string \<times> player \<Rightarrow> int \<Rightarrow> GameState \<Rightarrow> actionResult option \<times> GameState" where
  "collectCoin ref coinId gs =
     (case coinAt gs coinId of
        None \<Rightarrow> (None, gs)
      | Some c \<Rightarrow>
          if \<not> c_collected c
          then (Some (CoinResult (p_id (snd ref)) coinId (p_score (snd ref) + 10)),
                gs\<lparr>coins := (coins gs)[nat coinId := c\<lparr>c_collected := True\<rparr>],
                   players := updatePlayer (fst ref)
                                (\<lambda>p. p\<lparr>p_score := p_score p + 10\<rparr>) (players gs)\<rparr>)
          else (None, gs))"

definition placeBlock ::
  "string \<times> player \<Rightarrow> int \<Rightarrow> int \<Rightarrow> string \<Rightarrow> GameState
     \<Rightarrow> actionResult option \<times> GameState" where
  "placeBlock ref bx by ty gs =
     (Some (BlockResult (p_id (snd ref)) bx by ty),
      gs\<lparr>blocks := blocks gs @ [\<lparr>b_x = bx, b_y = by, b_type = ty, b_owner = p_id (snd ref)\<rparr>],
         players := updatePlayer (fst ref)
                      (\<lambda>p. p\<lparr>p_score := p_score p + 5\<rparr>) (players gs)\<rparr>)"

definition createProjectile ::
  "nat \<Rightarrow> string \<times> player \<Rightarrow> real \<Rightarrow> real \<Rightarrow> real \<Rightarrow> GameState
     \<Rightarrow> actionResult option \<times> GameState" where
  "createProjectile now ref angle sx sy gs =
     (let proj = \<lparr>pr_id = now, pr_owner = p_id (snd ref), pr_team = p_team (snd ref),
                  pr_x = sx, pr_y = sy, pr_angle = angle, pr_speed = 10, pr_damage = 25\<rparr>
      in (Some (ShootResult (p_id (snd ref)) proj),
          gs\<lparr>projectiles := projectiles gs @ [proj]\<rparr>))"

definition activateBoost ::
  "nat \<Rightarrow> string \<times> player \<Rightarrow> GameState \<Rightarrow> actionResult option \<times> GameState" where
  "activateBoost now ref gs =
     (Some (BoostResult (p_id (snd ref)) ''speed_boost''),
      gs\<lparr>players := updatePlayer (fst ref)
           (\<lambda>p. p\<lparr>p_powerUps := p_powerUps p @
                     [\<lparr>pu_type = ''speed_boost'', pu_endTime = now + 3000\<rparr>]\<rparr>) (players gs)\<rparr>)"

text \<open>\<open>handleAction\<close>; \<open>now\<close> is the value of \<open>Date.now()\<close> at the call.\<close>

definition handleAction ::
  "nat \<Rightarrow> string \<Rightarrow> action \<Rightarrow> GameState \<Rightarrow> actionResult option \<times> GameState" where
  "handleAction now playerId a gs =
     (case map_of (players gs) playerId of
        None \<Rightarrow> (None, gs)
      | Some player \<Rightarrow>
          (case a of
             CollectCoin coinId \<Rightarrow> collectCoin (playerId, player) coinId gs
           | PlaceBlock bx by ty \<Rightarrow> placeBlock (playerId, player) bx by ty gs
           | Shoot angle sx sy \<Rightarrow> createProjectile now (playerId, player) angle sx sy gs
           | UseBoost \<Rightarrow> activateBoost now (playerId, player) gs
           | OtherAction _ \<Rightarrow> (None, gs)))"

definition removePlayerGS :: "string \<Rightarrow> GameState \<Rightarrow> GameState" where
  "removePlayerGS playerId gs = gs\<lparr>players := AList.delete playerId (players gs)\<rparr>"

text \<open>\<open>getState\<close>, the snapshot broadcast on every tick.\<close>

record playerView =
  v_id :: string
  v_username :: string
  v_x :: real
  v_y :: real
  v_score :: int
  v_health :: int
  v_team :: team

datatype objects = Coins "coin list" | Blocks "block list" | Projectiles "projectile list"

record snapshot =
  s_players :: "playerView list"
  s_objects :: objects
  s_teamScores :: tally
  s_mode :: mode

definition getState :: "GameState \<Rightarrow> snapshot" where
  "getState gs =
     \<lparr>s_players = map (\<lambda>(k, p). \<lparr>v_id = p_id p, v_username = p_username p, v_x = p_x p,
                                   v_y = p_y p, v_score = p_score p, v_health = p_health p,
                                   v_team = p_team p\<rparr>) (players gs),
      s_objects = (if currentMode gs = Race then Coins (coins gs)
                   else if currentMode gs = Build then Blocks (blocks gs)
                   else Projectiles (projectiles gs)),
      s_teamScores = teamScores gs,
      s_mode = currentMode gs\<rparr>"

text \<open>\<open>getScores\<close>: sorted by descending score (the sort is stable).\<close>

record scoreEntry =
  se_id :: string
  se_username :: string
  se_score :: int

definition getScores :: "GameState \<Rightarrow> scoreEntry list" where
  "getScores gs =
     sort_key (\<lambda>e. - se_score e)
       (map (\<lambda>(k, p). \<lparr>se_id = p_id p, se_username = p_username p, se_score = p_score p\<rparr>)
            (players gs))"

record finalScores =
  f_winner :: "scoreEntry option"
  f_scores :: "scoreEntry list"
  f_teamScores :: tally

definition getFinalScores :: "GameState \<Rightarrow> finalScores" where
  "getFinalScores gs =
     (let sc = getScores gs
      in \<lparr>f_winner = (case sc of [] \<Rightarrow> None | e # _ \<Rightarrow> Some e), f_scores = sc,
          f_teamScores = teamScores gs\<rparr>)"

text \<open>\<open>setMode\<close>.  No other function of the server calls it.\<close>

definition setMode :: "mode \<Rightarrow> (nat \<Rightarrow> real) \<Rightarrow> GameState \<Rightarrow> GameState" where
  "setMode m rnd gs =
     (let gs1 = gs\<lparr>currentMode := m\<rparr>
      in case m of
           Race \<Rightarrow> gs1\<lparr>coins := generateCoins rnd\<rparr>
         | Build \<Rightarrow> gs1\<lparr>blocks := []\<rparr>
         | Battle \<Rightarrow> gs1\<lparr>projectiles := [],
                         players := map (\<lambda>(k, p). (k, p\<lparr>p_health := 100\<rparr>)) (players gs)\<rparr>)"

text \<open>
  \<open>update\<close>.  The callback of \<open>projectiles.filter\<close> first moves the projectile, then
  walks over all players (\<open>hitPlayers\<close>, the inner \<open>forEach\<close>, which has no early exit),
  and keeps the projectile when nothing was hit and it is inside the arena.  The argument
  \<open>deltaTime\<close> is not read by the source; \<open>now\<close> is \<open>Date.now()\<close>.
\<close>

definition moveProjectile :: "projectile \<Rightarrow> projectile" where
  "moveProjectile proj =
     proj\<lparr>pr_x := pr_x proj + cos (pr_angle proj) * pr_speed proj,
          pr_y := pr_y proj + sin (pr_angle proj) * pr_speed proj\<rparr>"

definition projDist :: "projectile \<Rightarrow> player \<Rightarrow> real" where
  "projDist proj p = sqrt ((p_x p - pr_x proj)\<^sup>2 + (p_y p - pr_y proj)\<^sup>2)"

definition addKill :: "team \<Rightarrow> tally \<Rightarrow> tally" where
  "addKill t ts = (if t = Red then ts\<lparr>ts_red := ts_red ts + 10\<rparr>
                   else ts\<lparr>ts_blue := ts_blue ts + 10\<rparr>)"

fun hitPlayers ::
  "projectile \<Rightarrow> (string \<times> player) list \<Rightarrow> tally \<Rightarrow> bool
     \<Rightarrow> (string \<times> player) list \<times> tally \<times> bool" where
  "hitPlayers proj [] ts hit = ([], ts, hit)"
| "hitPlayers proj ((k, p) # ps) ts hit =
     (if p_id p \<noteq> pr_owner proj \<and> p_team p \<noteq> pr_team proj
      then (if projDist proj p < 30
            then (let h = p_health p - pr_damage proj;
                      p' = (if h \<le> 0 then p\<lparr>p_health := 0\<rparr> else p\<lparr>p_health := h\<rparr>);
                      ts' = (if h \<le> 0 then addKill (pr_team proj) ts else ts);
                      (ps', ts'', hit') = hitPlayers proj ps ts' True
                  in ((k, p') # ps', ts'', hit'))
            else (let (ps', ts'', hit') = hitPlayers proj ps ts hit
                  in ((k, p) # ps', ts'', hit')))
      else (let (ps', ts'', hit') = hitPlayers proj ps ts hit
            in ((k, p) # ps', ts'', hit')))"

definition inBounds :: "projectile \<Rightarrow> bool" where
  "inBounds proj \<longleftrightarrow> pr_x proj > 0 \<and> pr_x proj < 1000 \<and> pr_y proj > 0 \<and> pr_y proj < 800"

definition stepProjectile ::
  "projectile \<Rightarrow> (string \<times> player) list \<Rightarrow> tally
     \<Rightarrow> bool \<times> projectile \<times> (string \<times> player) list \<times> tally" where
  "stepProjectile proj ps ts =
     (let moved = moveProjectile proj;
          (ps', ts', hit) = hitPlayers moved ps ts False
      in (\<not> hit \<and> inBounds moved, moved, ps', ts'))"

fun updateProjectiles ::
  "projectile list \<Rightarrow> (string \<times> player) list \<Rightarrow> tally
     \<Rightarrow> projectile list \<times> (string \<times> player) list \<times> tally" where
  "updateProjectiles [] ps ts = ([], ps, ts)"
| "updateProjectiles (proj # rest) ps ts =
     (let (keep, moved, ps', ts') = stepProjectile proj ps ts;
          (kept, ps'', ts'') = updateProjectiles rest ps' ts'
      in (if keep then moved # kept else kept, ps'', ts''))"

definition update :: "real \<Rightarrow> nat \<Rightarrow> GameState \<Rightarrow> GameState" where
  "update deltaTime now gs =
     (let (projs, ps, ts) = updateProjectiles (projectiles gs) (players gs) (teamScores gs)
      in gs\<lparr>projectiles := projs,
            players := map (\<lambda>(k, p). (k, p\<lparr>p_powerUps :=
                              filter (\<lambda>u. pu_endTime u > now) (p_powerUps p)\<rparr>)) ps,
            teamScores := ts\<rparr>)"

section \<open>GameRoom.js\<close>

text \<open>
  The player objects of a room are shared between the room's map and the map of its
  \<open>GameState\<close> (the constructor copies the map, not the objects).  The model keeps a copy
  in each record; the functions of the server below write the fields that the simulation
  changed back into the room's copy (\<open>shareInto\<close>).
\<close>

record GameRoom =
  roomCode :: string
  isPrivate :: bool
  roomPlayers :: "(string \<times> player) list"
  gameState :: "GameState option"
  gameStarted :: bool
  currentRound :: nat
  maxPlayers :: nat

datatype error = RoomFull | RoomNotFound | GameAlreadyStarted | TypeError

text \<open>The three results of \<open>Math.random()\<close> that \<open>addPlayer\<close> may read.\<close>

record draws =
  d_guest :: real
  d_x :: real
  d_y :: real

definition newGameRoom :: "string \<Rightarrow> bool \<Rightarrow> GameRoom" where
  "newGameRoom c priv =
     \<lparr>roomCode = c, isPrivate = priv, roomPlayers = [], gameState = None,
      gameStarted = False, currentRound = 0, maxPlayers = 16\<rparr>"

definition playerCount :: "GameRoom \<Rightarrow> nat" where
  "playerCount r = length (roomPlayers r)"

definition getPlayers :: "GameRoom \<Rightarrow> player list" where
  "getPlayers r = map snd (roomPlayers r)"

definition teamCount :: "team \<Rightarrow> GameRoom \<Rightarrow> nat" where
  "teamCount t r = length (filter (\<lambda>(k, p). p_team p = t) (roomPlayers r))"

definition assignTeam :: "GameRoom \<Rightarrow> team" where
  "assignTeam r = (if teamCount Red r \<le> teamCount Blue r then Red else Blue)"

fun showNat :: "nat \<Rightarrow> string" where
  "showNat n = (if n < 10 then [char_of (48 + n)]
                else showNat (n div 10) @ [char_of (48 + n mod 10)])"

declare showNat.simps [simp del]

definition addPlayer ::
  "string \<Rightarrow> string \<Rightarrow> draws \<Rightarrow> GameRoom \<Rightarrow> error + (player \<times> GameRoom)" where
  "addPlayer ident username d r =
     (if length (roomPlayers r) \<ge> maxPlayers r then Inl RoomFull
      else (let player =
                  \<lparr>p_id = ident,
                   p_username = (if username = [] then ''Guest'' @ showNat (nat \<lfloor>d_guest d * 10000\<rfloor>)
                                 else username),
                   p_team = assignTeam r, p_score = 0,
                   p_x = d_x d * 800, p_y = d_y d * 600, p_vx = None, p_vy = None,
                   p_health = 100, p_powerUps = []\<rparr>
            in Inr (player, r\<lparr>roomPlayers := AList.update ident player (roomPlayers r)\<rparr>)))"

definition removePlayer :: "string \<Rightarrow> GameRoom \<Rightarrow> GameRoom" where
  "removePlayer ident r =
     r\<lparr>roomPlayers := AList.delete ident (roomPlayers r),
       gameState := map_option (removePlayerGS ident) (gameState r)\<rparr>"

definition startGameRoom :: "(nat \<Rightarrow> real) \<Rightarrow> GameRoom \<Rightarrow> GameRoom" where
  "startGameRoom rnd r =
     (if gameStarted r then r
      else (let gs = newGameState (roomPlayers r) rnd
            in r\<lparr>gameStarted := True, gameState := Some gs, currentRound := 1,
                 roomPlayers := players gs\<rparr>))"

definition endGame :: "GameRoom \<Rightarrow> GameRoom" where
  "endGame r = r\<lparr>gameStarted := False, gameState := None, currentRound := 0\<rparr>"

definition shareInto ::
  "(string \<times> player) list \<Rightarrow> (string \<times> player) list \<Rightarrow> (string \<times> player) list" where
  "shareInto gps rps =
     map (\<lambda>(k, p). case map_of gps k of None \<Rightarrow> (k, p) | Some p' \<Rightarrow> (k, p')) rps"

definition withGameState :: "GameState \<Rightarrow> GameRoom \<Rightarrow> GameRoom" where
  "withGameState gs r =
     r\<lparr>gameState := Some gs, roomPlayers := shareInto (players gs) (roomPlayers r)\<rparr>"

section \<open>index.js: the room directory, the handlers and the timers\<close>

text \<open>
  Rooms are objects: the directory \<open>rooms\<close> maps a code to a reference, and the closures
  that \<open>startGame\<close> hands to the timers keep the reference after the directory dropped
  it.  The model stores the room objects in \<open>heap\<close> (a reference is an index; objects are
  never freed) and the directory as an association list from codes to references.

  A pending timer is a record of its handle, the time it is due (milliseconds), its period
  when it was made by \<open>setInterval\<close>, and its closure.  The closures of the source are the
  constructors of \<open>callback\<close>, each with the variables it captured.  Everything the server
  emits to a room is appended to \<open>outbox\<close> with the time of the emission.
\<close>

datatype event =
  PlayerJoined string player
  | PlayerLeft string string
  | ActionResult string actionResult
  | RoundStart mode nat
  | RoundEnd "scoreEntry list"
  | GameStateUpdate snapshot
  | GameEnd finalScores

datatype callback =
  StartGameCB string
  | GameLoopCB string nat
  | RoundEndCB string nat mode nat
  | RoundStartCB string mode nat
  | GameEndCB string nat nat

record timer =
  t_id :: nat
  t_due :: nat
  t_repeat :: "nat option"
  t_cb :: callback

record server =
  heap :: "GameRoom list"
  rooms :: "(string \<times> nat) list"
  playerRooms :: "(string \<times> string) list"
  timers :: "timer list"
  nextTimer :: nat
  clock :: nat
  outbox :: "(nat \<times> string \<times> event) list"

definition initServer :: server where
  "initServer = \<lparr>heap = [], rooms = [], playerRooms = [], timers = [], nextTimer = 0,
                  clock = 0, outbox = []\<rparr>"

datatype ack =
  AckOk string string "player list option"
  | AckError error

definition emit :: "string \<Rightarrow> event \<Rightarrow> server \<Rightarrow> server" where
  "emit c e s = s\<lparr>outbox := outbox s @ [(clock s, c, e)]\<rparr>"

definition setTimeout :: "callback \<Rightarrow> nat \<Rightarrow> server \<Rightarrow> server" where
  "setTimeout cb delay s =
     s\<lparr>timers := timers s @ [\<lparr>t_id = nextTimer s, t_due = clock s + delay,
                               t_repeat = None, t_cb = cb\<rparr>],
       nextTimer := Suc (nextTimer s)\<rparr>"

definition setInterval :: "callback \<Rightarrow> nat \<Rightarrow> server \<Rightarrow> server" where
  "setInterval cb period s =
     s\<lparr>timers := timers s @ [\<lparr>t_id = nextTimer s, t_due = clock s + period,
                               t_repeat = Some period, t_cb = cb\<rparr>],
       nextTimer := Suc (nextTimer s)\<rparr>"

text \<open>\<open>clearInterval h\<close>: the handle is always one that \<open>setInterval\<close> returned.\<close>

definition clearInterval :: "nat \<Rightarrow> server \<Rightarrow> server" where
  "clearInterval h s =
     s\<lparr>timers := filter (\<lambda>t. \<not> (t_id t = h \<and> t_repeat t \<noteq> None)) (timers s)\<rparr>"

definition lookupRoom :: "server \<Rightarrow> string \<Rightarrow> (nat \<times> GameRoom) option" where
  "lookupRoom s c =
     (case map_of (rooms s) c of
        None \<Rightarrow> None
      | Some a \<Rightarrow> if a < length (heap s) then Some (a, heap s ! a) else None)"

definition storeRoom :: "nat \<Rightarrow> GameRoom \<Rightarrow> server \<Rightarrow> server" where
  "storeRoom a r s = s\<lparr>heap := (heap s)[a := r]\<rparr>"

text \<open>\<open>generateRoomCode\<close>: six characters, character \<open>i\<close> chosen by draw \<open>i\<close>.\<close>

definition chars :: string where
  "chars = ''ABCDEFGHIJKLMNOPQRSTUVWXYZ0123456789''"

definition charAt :: "string \<Rightarrow> int \<Rightarrow> string" where
  "charAt str i = (if 0 \<le> i \<and> nat i < length str then [str ! nat i] else [])"

definition generateRoomCode :: "(nat \<Rightarrow> real) \<Rightarrow> string" where
  "generateRoomCode rnd =
     concat (map (\<lambda>i. charAt chars \<lfloor>rnd i * real (length chars)\<rfloor>) [0..<6])"

text \<open>\<open>findAvailableRoom\<close>: the first open public room in directory order, or a new one.\<close>

fun firstAvailable :: "GameRoom list \<Rightarrow> (string \<times> nat) list \<Rightarrow> string option" where
  "firstAvailable h [] = None"
| "firstAvailable h ((c, a) # rest) =
     (if a < length h \<and> playerCount (h ! a) < 16 \<and> \<not> isPrivate (h ! a)
         \<and> \<not> gameStarted (h ! a)
      then Some c else firstAvailable h rest)"

definition findAvailableRoom :: "(nat \<Rightarrow> real) \<Rightarrow> server \<Rightarrow> string \<times> server" where
  "findAvailableRoom rnd s =
     (case firstAvailable (heap s) (rooms s) of
        Some c \<Rightarrow> (c, s)
      | None \<Rightarrow>
          (let c = generateRoomCode rnd
           in (c, s\<lparr>heap := heap s @ [newGameRoom c False],
                    rooms := AList.update c (length (heap s)) (rooms s)\<rparr>)))"

text \<open>\<open>toUpperCase\<close> on the ASCII letters.\<close>

definition toUpperCase :: "string \<Rightarrow> string" where
  "toUpperCase str =
     map (\<lambda>c. if 97 \<le> (of_char c :: nat) \<and> (of_char c :: nat) \<le> 122
               then char_of ((of_char c :: nat) - 32) else c) str"

text \<open>
  The handlers of the socket events.  Each returns the acknowledgement passed to the
  client's callback (when the event has one) and the new state of the server; \<open>sid\<close> is
  \<open>socket.id\<close>.  An exception thrown inside \<open>try\<close> becomes \<open>AckError\<close>.
\<close>

definition scheduleStart :: "string \<Rightarrow> GameRoom \<Rightarrow> server \<Rightarrow> server" where
  "scheduleStart c r s =
     (if playerCount r \<ge> 2 \<and> \<not> gameStarted r then setTimeout (StartGameCB c) 3000 s else s)"

definition quickMatch ::
  "string \<Rightarrow> string \<Rightarrow> (nat \<Rightarrow> real) \<Rightarrow> draws \<Rightarrow> server \<Rightarrow> ack \<times> server" where
  "quickMatch sid username rnd d s =
     (let (c, s1) = findAvailableRoom rnd s
      in case lookupRoom s1 c of
           None \<Rightarrow> (AckError TypeError, s1)
         | Some (a, room) \<Rightarrow>
             (case addPlayer sid username d room of
                Inl e \<Rightarrow> (AckError e, s1)
              | Inr (player, room') \<Rightarrow>
                  (let s2 = storeRoom a room' s1;
                       s3 = s2\<lparr>playerRooms := AList.update sid c (playerRooms s2)\<rparr>;
                       s4 = emit c (PlayerJoined sid player) s3
                   in (AckOk c sid (Some (getPlayers room')), scheduleStart c room' s4))))"

definition createRoom ::
  "string \<Rightarrow> string \<Rightarrow> (nat \<Rightarrow> real) \<Rightarrow> draws \<Rightarrow> server \<Rightarrow> ack \<times> server" where
  "createRoom sid username rnd d s =
     (let c = generateRoomCode rnd
      in case addPlayer sid username d (newGameRoom c True) of
           Inl e \<Rightarrow> (AckError e, s)
         | Inr (player, room') \<Rightarrow>
             (AckOk c sid None,
              s\<lparr>heap := heap s @ [room'],
                rooms := AList.update c (length (heap s)) (rooms s),
                playerRooms := AList.update sid c (playerRooms s)\<rparr>))"

definition joinRoom ::
  "string \<Rightarrow> string \<Rightarrow> string \<Rightarrow> draws \<Rightarrow> server \<Rightarrow> ack \<times> server" where
  "joinRoom sid c username d s =
     (case lookupRoom s (toUpperCase c) of
        None \<Rightarrow> (AckError RoomNotFound, s)
      | Some (a, room) \<Rightarrow>
          if playerCount room \<ge> 16 then (AckError RoomFull, s)
          else if gameStarted room then (AckError GameAlreadyStarted, s)
          else (case addPlayer sid username d room of
                  Inl e \<Rightarrow> (AckError e, s)
                | Inr (player, room') \<Rightarrow>
                    (let s2 = storeRoom a room' s;
                         s3 = s2\<lparr>playerRooms := AList.update sid c (playerRooms s2)\<rparr>;
                         s4 = emit c (PlayerJoined sid player) s3
                     in (AckOk c sid (Some (getPlayers room')), scheduleStart c room' s4))))"

text \<open>The room with a running simulation that a connection is routed to.\<close>

definition routed :: "server \<Rightarrow> string \<Rightarrow> (string \<times> nat \<times> GameRoom \<times> GameState) option" where
  "routed s sid =
     (case map_of (playerRooms s) sid of
        None \<Rightarrow> None
      | Some c \<Rightarrow>
          if c = [] then None
          else (case lookupRoom s c of
                  None \<Rightarrow> None
                | Some (a, room) \<Rightarrow>
                    (case gameState room of None \<Rightarrow> None | Some gs \<Rightarrow> Some (c, a, room, gs))))"

definition playerInput :: "string \<Rightarrow> input \<Rightarrow> server \<Rightarrow> server" where
  "playerInput sid i s =
     (case routed s sid of
        None \<Rightarrow> s
      | Some (c, a, room, gs) \<Rightarrow> storeRoom a (withGameState (updatePlayerInput sid i gs) room) s)"

fun actionName :: "action \<Rightarrow> string" where
  "actionName (CollectCoin _) = ''collectCoin''"
| "actionName (PlaceBlock _ _ _) = ''placeBlock''"
| "actionName (Shoot _ _ _) = ''shoot''"
| "actionName UseBoost = ''useBoost''"
| "actionName (OtherAction n) = n"

definition playerAction :: "string \<Rightarrow> action \<Rightarrow> server \<Rightarrow> server" where
  "playerAction sid act s =
     (case routed s sid of
        None \<Rightarrow> s
      | Some (c, a, room, gs) \<Rightarrow>
          (let (result, gs') = handleAction (clock s) sid act gs;
               s1 = storeRoom a (withGameState gs' room) s
           in case result of
                None \<Rightarrow> s1
              | Some res \<Rightarrow> emit c (ActionResult (actionName act @ ''Result'') res) s1))"

definition disconnect :: "string \<Rightarrow> server \<Rightarrow> server" where
  "disconnect sid s =
     (case map_of (playerRooms s) sid of
        None \<Rightarrow> s
      | Some c \<Rightarrow>
          if c = [] then s
          else (let s1 =
                   (case lookupRoom s c of
                      None \<Rightarrow> s
                    | Some (a, room) \<Rightarrow>
                        (let room' = removePlayer sid room;
                             s2 = emit c (PlayerLeft sid sid) (storeRoom a room' s)
                         in if playerCount room' = 0
                            then s2\<lparr>rooms := AList.delete c (rooms s2)\<rparr> else s2))
                in s1\<lparr>playerRooms := AList.delete sid (playerRooms s1)\<rparr>))"

text \<open>
  \<open>startGame\<close>.  The interval is created before the three timeouts; its handle is the value
  of \<open>nextTimer\<close> at that moment.  The period \<open>1000 / 30\<close> is truncated to whole
  milliseconds by the timer.
\<close>

definition startGame :: "string \<Rightarrow> (nat \<Rightarrow> real) \<Rightarrow> server \<Rightarrow> server" where
  "startGame c rnd s =
     (case lookupRoom s c of
        None \<Rightarrow> s
      | Some (a, room) \<Rightarrow>
          if gameStarted room then s
          else (let s1 = storeRoom a (startGameRoom rnd room) s;
                    s2 = emit c (RoundStart Race 120) s1;
                    gameLoop = nextTimer s2;
                    s3 = setInterval (GameLoopCB c a) (1000 div 30) s2;
                    s4 = setTimeout (RoundEndCB c a Build 180) 120000 s3;
                    s5 = setTimeout (RoundEndCB c a Battle 150) 303000 s4
                in setTimeout (GameEndCB c a gameLoop) 456000 s5))"

text \<open>
  The bodies of the closures.  \<open>room.gameState.getState()\<close> and its siblings throw a
  \<open>TypeError\<close> when \<open>gameState\<close> is \<open>null\<close>; nothing catches it, and the result is \<open>None\<close>.
\<close>

definition heldState :: "server \<Rightarrow> nat \<Rightarrow> GameState option" where
  "heldState s a = (if a < length (heap s) then gameState (heap s ! a) else None)"

definition runCallback :: "timer \<Rightarrow> (nat \<Rightarrow> real) \<Rightarrow> server \<Rightarrow> server option" where
  "runCallback t rnd s =
     (case t_cb t of
        StartGameCB c \<Rightarrow> Some (startGame c rnd s)
      | GameLoopCB c a \<Rightarrow>
          (if map_of (rooms s) c = None then Some (clearInterval (t_id t) s)
           else (case heldState s a of
                   None \<Rightarrow> None
                 | Some gs \<Rightarrow> Some (emit c (GameStateUpdate (getState gs)) s)))
      | RoundEndCB c a m dur \<Rightarrow>
          (case heldState s a of
             None \<Rightarrow> None
           | Some gs \<Rightarrow>
               Some (setTimeout (RoundStartCB c m dur) 3000 (emit c (RoundEnd (getScores gs)) s)))
      | RoundStartCB c m dur \<Rightarrow> Some (emit c (RoundStart m dur) s)
      | GameEndCB c a gameLoop \<Rightarrow>
          (case heldState s a of
             None \<Rightarrow> None
           | Some gs \<Rightarrow>
               (let s1 = clearInterval gameLoop (emit c (GameEnd (getFinalScores gs)) s)
                in Some (storeRoom a (endGame (heap s1 ! a)) s1))))"

text \<open>
  The event loop.  \<open>earliest\<close> is the pending timer that is due first (the one created
  first among equals).  \<open>fire\<close> advances the clock to that time, takes a timeout off the
  list or re-arms an interval one period later, and runs the closure.
\<close>

fun earliest :: "timer list \<Rightarrow> timer option" where
  "earliest [] = None"
| "earliest (t # ts) =
     (case earliest ts of
        None \<Rightarrow> Some t
      | Some u \<Rightarrow> if t_due t \<le> t_due u then Some t else Some u)"

definition rearm :: "timer \<Rightarrow> timer list \<Rightarrow> timer list" where
  "rearm t ts =
     (case t_repeat t of
        None \<Rightarrow> remove1 t ts
      | Some period \<Rightarrow> map (\<lambda>u. if u = t then u\<lparr>t_due := t_due t + period\<rparr> else u) ts)"

definition fire :: "(nat \<Rightarrow> real) \<Rightarrow> server \<Rightarrow> server option" where
  "fire rnd s =
     (case earliest (timers s) of
        None \<Rightarrow> None
      | Some t \<Rightarrow> runCallback t rnd (s\<lparr>clock := t_due t, timers := rearm t (timers s)\<rparr>))"

text \<open>
  An inbound socket event with the random draws its handler consumes, and the executions
  of the server: any interleaving of timers firing and of inbound events (those that
  \<open>allowed\<close> admits), an event arriving at a time \<open>tau\<close> that no pending timer is due
  before.
\<close>

datatype inbound =
  QuickMatch string string "nat \<Rightarrow> real" draws
  | CreateRoom string string "nat \<Rightarrow> real" draws
  | JoinRoom string string string draws
  | PlayerInput string input
  | PlayerAction string action
  | Disconnect string

fun handle :: "inbound \<Rightarrow> server \<Rightarrow> server" where
  "handle (QuickMatch sid username rnd d) s = snd (quickMatch sid username rnd d s)"
| "handle (CreateRoom sid username rnd d) s = snd (createRoom sid username rnd d s)"
| "handle (JoinRoom sid c username d) s = snd (joinRoom sid c username d s)"
| "handle (PlayerInput sid i) s = playerInput sid i s"
| "handle (PlayerAction sid act) s = playerAction sid act s"
| "handle (Disconnect sid) s = disconnect sid s"

inductive exec :: "(inbound \<Rightarrow> bool) \<Rightarrow> server \<Rightarrow> server \<Rightarrow> bool"
  for allowed :: "inbound \<Rightarrow> bool" where
  exec_refl: "exec allowed s s"
| exec_fire: "exec allowed s s' \<Longrightarrow> fire rnd s' = Some s'' \<Longrightarrow> exec allowed s s''"
| exec_inbound:
    "exec allowed s s' \<Longrightarrow> allowed e \<Longrightarrow> clock s' \<le> tau
       \<Longrightarrow> \<forall>t \<in> set (timers s'). tau \<le> t_due t
       \<Longrightarrow> exec allowed s (handle e (s'\<lparr>clock := tau\<rparr>))"

section \<open>Predicates and example states used in the statements\<close>

subsection \<open>Coins\<close>

text \<open>A coin id that \<open>collectCoin\<close> accepts: the coin exists and is not collected.\<close>

definition collectable :: "GameState \<Rightarrow> int \<Rightarrow> bool" where
  "collectable gs coinId =
     (case coinAt gs coinId of None \<Rightarrow> False | Some c \<Rightarrow> \<not> c_collected c)"

text \<open>An uncollected coin within the collection radius of a player.\<close>

definition nearby :: "player \<Rightarrow> coin \<Rightarrow> bool" where
  "nearby p c \<longleftrightarrow> \<not> c_collected c \<and> coinDist p c < 30"

text \<open>Small concrete states for the closed instances below.\<close>

definition demoPlayer :: "string \<Rightarrow> team \<Rightarrow> player" where
  "demoPlayer ident t =
     \<lparr>p_id = ident, p_username = ident, p_team = t, p_score = 0, p_x = 0, p_y = 0,
      p_vx = None, p_vy = None, p_health = 100, p_powerUps = []\<rparr>"

definition demoCoin :: "nat \<Rightarrow> real \<Rightarrow> real \<Rightarrow> coin" where
  "demoCoin i cx cy = \<lparr>c_id = i, c_x = cx, c_y = cy, c_collected = False\<rparr>"

definition demoState :: GameState where
  "demoState =
     \<lparr>players = [(''a'', demoPlayer ''a'' Red), (''b'', demoPlayer ''b'' Blue)],
      currentMode = Race, teamScores = \<lparr>ts_red = 0, ts_blue = 0\<rparr>,
      coins = [demoCoin 0 10 0, demoCoin 1 0 20, demoCoin 2 500 500],
      blocks = [], projectiles = []\<rparr>"

subsection \<open>Projectiles\<close>

text \<open>
  The test of the inner loop of \<open>update\<close>: the player is not the owner, is on another team
  and is closer than 30 to the (moved) projectile.
\<close>

definition isHit :: "projectile \<Rightarrow> player \<Rightarrow> bool" where
  "isHit proj p \<longleftrightarrow>
     p_id p \<noteq> pr_owner proj \<and> p_team p \<noteq> pr_team proj \<and> projDist proj p < 30"

definition teamScore :: "team \<Rightarrow> tally \<Rightarrow> int" where
  "teamScore t ts = (case t of Red \<Rightarrow> ts_red ts | Blue \<Rightarrow> ts_blue ts)"

definition otherTeam :: "team \<Rightarrow> team" where
  "otherTeam t = (case t of Red \<Rightarrow> Blue | Blue \<Rightarrow> Red)"

text \<open>Every player the projectile reaches still has health; no player has negative health.\<close>

definition hitsAlive :: "projectile \<Rightarrow> (string \<times> player) list \<Rightarrow> bool" where
  "hitsAlive proj ps \<longleftrightarrow> list_all (\<lambda>(k, p). isHit proj p \<longrightarrow> 0 < p_health p) ps"

definition noneNegative :: "(string \<times> player) list \<Rightarrow> bool" where
  "noneNegative ps \<longleftrightarrow> list_all (\<lambda>(k, p). 0 \<le> p_health p) ps"

text \<open>
  A battle with the shooter \<open>a\<close> (red) and two blue players \<open>b\<close> and \<open>c\<close> standing next to
  each other, and one projectile of \<open>a\<close> that its next move puts on top of \<open>b\<close>.
\<close>

definition demoShot :: projectile where
  "demoShot = \<lparr>pr_id = 0, pr_owner = ''a'', pr_team = Red, pr_x = 0, pr_y = 0, pr_angle = 0,
               pr_speed = 10, pr_damage = 25\<rparr>"

definition battlePlayers :: "(string \<times> player) list" where
  "battlePlayers =
     [(''a'', demoPlayer ''a'' Red),
      (''b'', (demoPlayer ''b'' Blue)\<lparr>p_x := 10\<rparr>),
      (''c'', (demoPlayer ''c'' Blue)\<lparr>p_x := 12, p_health := 25\<rparr>)]"

definition battleState :: GameState where
  "battleState = demoState\<lparr>players := battlePlayers, currentMode := Battle,
                           projectiles := [demoShot]\<rparr>"

subsection \<open>Rooms\<close>

text \<open>
  A sequence of \<open>addPlayer\<close> calls on one room, each with its connection id, name and
  random draws; a call that throws leaves the room as it was.
\<close>

fun addPlayers :: "(string \<times> string \<times> draws) list \<Rightarrow> GameRoom \<Rightarrow> GameRoom" where
  "addPlayers [] r = r"
| "addPlayers ((ident, username, d) # js) r =
     (case addPlayer ident username d r of
        Inl e \<Rightarrow> addPlayers js r
      | Inr (p, r') \<Rightarrow> addPlayers js r')"

definition balanced :: "GameRoom \<Rightarrow> bool" where
  "balanced r \<longleftrightarrow>
     teamCount Blue r \<le> teamCount Red r \<and> teamCount Red r \<le> teamCount Blue r + 1"

definition capRoom :: "GameRoom \<Rightarrow> bool" where
  "capRoom r \<longleftrightarrow> playerCount r \<le> 16 \<and> maxPlayers r = 16"

definition capOnly :: "server \<Rightarrow> bool" where
  "capOnly s \<longleftrightarrow> list_all capRoom (heap s)"

definition demoDraws :: draws where
  "demoDraws = \<lparr>d_guest = 0, d_x = 0, d_y = 0\<rparr>"

definition rejoin :: "(string \<times> string \<times> draws) list" where
  "rejoin = [(''a'', ''ann'', demoDraws), (''b'', ''bob'', demoDraws), (''b'', ''bob'', demoDraws)]"

definition sixteen :: "(string \<times> string \<times> draws) list" where
  "sixteen = map (\<lambda>i. (i, ''guest'', demoDraws))
     [''p01'', ''p02'', ''p03'', ''p04'', ''p05'', ''p06'', ''p07'', ''p08'',
      ''p09'', ''p10'', ''p11'', ''p12'', ''p13'', ''p14'', ''p15'', ''p16'']"

definition zeros :: "nat \<Rightarrow> real" where
  "zeros = (\<lambda>_. 0)"

definition halves :: "nat \<Rightarrow> real" where
  "halves = (\<lambda>_. 1 / 2)"

subsection \<open>Executions\<close>

text \<open>An event with its time and target room is in the outbox.\<close>

definition emitted :: "server \<Rightarrow> nat \<Rightarrow> string \<Rightarrow> event \<Rightarrow> bool" where
  "emitted s t c e \<longleftrightarrow> (t, c, e) \<in> set (outbox s)"

text \<open>A timeout with the given closure is pending for the time \<open>due\<close>, which has not passed.\<close>

definition pending :: "server \<Rightarrow> nat \<Rightarrow> callback \<Rightarrow> bool" where
  "pending s due cb \<longleftrightarrow>
     (\<exists>t \<in> set (timers s). t_due t = due \<and> t_repeat t = None \<and> t_cb t = cb) \<and> clock s \<le> due"

text \<open>
  What a handler (\<open>grows\<close>) and what a closure (\<open>keeps\<close>) leave alone: the clock, the
  events already emitted and the timeouts already pending.
\<close>

definition grows :: "server \<Rightarrow> server \<Rightarrow> bool" where
  "grows s s' \<longleftrightarrow> clock s' = clock s \<and> (\<exists>ts. timers s' = timers s @ ts)
     \<and> (\<exists>es. outbox s' = outbox s @ es)"

definition keeps :: "server \<Rightarrow> server \<Rightarrow> bool" where
  "keeps s s' \<longleftrightarrow> clock s' = clock s \<and> (\<exists>es. outbox s' = outbox s @ es)
     \<and> (\<forall>u \<in> set (timers s). t_repeat u = None \<longrightarrow> u \<in> set (timers s'))"

text \<open>
  The stages of one round transition (the end-of-round timeout is pending for \<open>T\<close>, or the
  round-start timeout is pending for \<open>T'\<close>, or the round start was emitted at \<open>T'\<close>), and
  of the end of the game.
\<close>

definition roundInv ::
  "nat \<Rightarrow> nat \<Rightarrow> string \<Rightarrow> nat \<Rightarrow> mode \<Rightarrow> nat \<Rightarrow> server \<Rightarrow> bool" where
  "roundInv T T' c a m dur s \<longleftrightarrow>
     pending s T (RoundEndCB c a m dur) \<or> pending s T' (RoundStartCB c m dur)
     \<or> emitted s T' c (RoundStart m dur)"

definition endInv :: "nat \<Rightarrow> string \<Rightarrow> nat \<Rightarrow> nat \<Rightarrow> server \<Rightarrow> bool" where
  "endInv T c a g s \<longleftrightarrow>
     pending s T (GameEndCB c a g) \<or> (\<exists>f. emitted s T c (GameEnd f))"

text \<open>The simulation of a room, when it has one, is in mode \<open>race\<close>; a broadcast snapshot
  carries mode \<open>race\<close>.\<close>

definition raceRoom :: "GameRoom \<Rightarrow> bool" where
  "raceRoom r \<longleftrightarrow> (case gameState r of None \<Rightarrow> True | Some gs \<Rightarrow> currentMode gs = Race)"

definition raceUpdate :: "nat \<times> string \<times> event \<Rightarrow> bool" where
  "raceUpdate x \<longleftrightarrow>
     (case snd (snd x) of GameStateUpdate snap \<Rightarrow> s_mode snap = Race | _ \<Rightarrow> True)"

definition raceOnly :: "server \<Rightarrow> bool" where
  "raceOnly s \<longleftrightarrow> list_all raceRoom (heap s) \<and> list_all raceUpdate (outbox s)"





text \<open>
  A script of an execution: timers firing and inbound events at given times.  \<open>run\<close> plays
  it and fails where \<open>exec\<close> has no step.
\<close>

datatype step = Fire "nat \<Rightarrow> real" | Inbound nat inbound

fun run :: "step list \<Rightarrow> server \<Rightarrow> server option" where
  "run [] s = Some s"
| "run (Fire rnd # st) s = (case fire rnd s of None \<Rightarrow> None | Some s' \<Rightarrow> run st s')"
| "run (Inbound tau e # st) s =
     (if clock s \<le> tau \<and> list_all (\<lambda>t. tau \<le> t_due t) (timers s)
      then run st (handle e (s\<lparr>clock := tau\<rparr>)) else None)"

fun inbounds :: "step list \<Rightarrow> inbound list" where
  "inbounds [] = []"
| "inbounds (Fire rnd # st) = inbounds st"
| "inbounds (Inbound tau e # st) = e # inbounds st"

text \<open>
  The example execution.  Two connections quick-match at 0 ms and 10 ms into a new room
  \<open>AAAAAA\<close> (\<open>demoLobby\<close>); at 3010 ms the start timeout fires (\<open>demoPre\<close> is the state its
  closure runs in).  Then (\<open>demoAfter\<close>) the interval ticks once, both players disconnect,
  the interval ticks again, the five timeouts of the round timeline fire, and a last
  inbound event arrives at 460000 ms.  \<open>demoOneLeft\<close> is the state in which the disconnect
  of the second player is handled, \<open>demoAll\<close> the execution from the empty server up to
  the start of the build round.
\<close>

definition demoLobby :: server where
  "demoLobby =
     snd (quickMatch ''s2'' ''bob'' zeros demoDraws
       ((snd (quickMatch ''s1'' ''ann'' zeros demoDraws initServer))\<lparr>clock := 10\<rparr>))"

definition demoPre :: server where
  "demoPre = demoLobby\<lparr>clock := 3010, timers := []\<rparr>"

definition demoBefore :: "step list" where
  "demoBefore = [Fire zeros, Inbound 3050 (Disconnect ''s1''), Inbound 3060 (Disconnect ''s2'')]"

definition demoRest :: "step list" where
  "demoRest =
     [Fire zeros, Fire zeros, Fire zeros, Fire zeros, Fire zeros, Fire zeros,
      Inbound 460000 (Disconnect ''nobody'')]"



definition demoAfter :: "step list" where
  "demoAfter = demoBefore @ demoRest"

definition demoAll :: "step list" where
  "demoAll =
     [Inbound 0 (QuickMatch ''s1'' ''ann'' zeros demoDraws),
      Inbound 10 (QuickMatch ''s2'' ''bob'' zeros demoDraws),
      Fire zeros, Fire zeros, Inbound 3050 (Disconnect ''s1''),
      Inbound 3060 (Disconnect ''s2''), Fire zeros, Fire zeros, Fire zeros]"

subsection \<open>The timers of a running game\<close>

text \<open>
  The room a closure reads the simulation of (\<open>roomOf\<close>), and the room and the interval
  handle of the closure that ends a game (\<open>endOf\<close>).  A room is \<open>running\<close> while its
  \<open>gameState\<close> is an object.
\<close>

fun roomOf :: "callback \<Rightarrow> nat option" where
  "roomOf (GameLoopCB c a) = Some a"
| "roomOf (RoundEndCB c a m dur) = Some a"
| "roomOf (GameEndCB c a g) = Some a"
| "roomOf _ = None"

fun endOf :: "callback \<Rightarrow> (nat \<times> nat) option" where
  "endOf (GameEndCB c a g) = Some (a, g)"
| "endOf _ = None"

definition running :: "server \<Rightarrow> nat \<Rightarrow> bool" where
  "running s a \<longleftrightarrow> a < length (heap s) \<and> gameState (heap s ! a) \<noteq> None"

text \<open>
  The shape of the timer list that the server keeps: a room with a simulation has
  started; a pending closure that reads a room finds it running; an end-of-round timeout
  is due before the timeout that ends the game of its room; an interval is a broadcast
  loop, and the timeout that ends the game of its room holds its handle; a room has at
  most one pending end of game; timer handles are unique and below the next handle.
\<close>

definition wellFormed :: "server \<Rightarrow> bool" where
  "wellFormed s \<longleftrightarrow>
     (\<forall>a < length (heap s). gameState (heap s ! a) \<noteq> None \<longrightarrow> gameStarted (heap s ! a))
   \<and> (\<forall>t \<in> set (timers s). \<forall>a. roomOf (t_cb t) = Some a \<longrightarrow> running s a)
   \<and> (\<forall>t \<in> set (timers s). \<forall>c a m dur. t_cb t = RoundEndCB c a m dur \<longrightarrow>
         (\<exists>u \<in> set (timers s). \<exists>g. endOf (t_cb u) = Some (a, g) \<and> t_due t < t_due u))
   \<and> (\<forall>t \<in> set (timers s). \<forall>c a. t_cb t = GameLoopCB c a \<longrightarrow>
         t_repeat t \<noteq> None \<and> (\<exists>u \<in> set (timers s). endOf (t_cb u) = Some (a, t_id t)))
   \<and> (\<forall>u \<in> set (timers s). \<forall>v \<in> set (timers s). \<forall>a g g'.
         endOf (t_cb u) = Some (a, g) \<longrightarrow> endOf (t_cb v) = Some (a, g') \<longrightarrow> u = v)
   \<and> (\<forall>t \<in> set (timers s). t_repeat t \<noteq> None \<longrightarrow> (\<exists>c a. t_cb t = GameLoopCB c a))
   \<and> distinct (map t_id (timers s))
   \<and> (\<forall>t \<in> set (timers s). t_id t < nextTimer s)"

text \<open>
  What a handler does to the games (\<open>sameGames\<close>): rooms keep \<open>gameStarted\<close> and whether
  they have a simulation, new rooms have none, and at most one timeout is added, whose
  closure reads no room.  \<open>keepsGame\<close> is the same for one room object.
\<close>

definition sameGames :: "server \<Rightarrow> server \<Rightarrow> bool" where
  "sameGames s s' \<longleftrightarrow>
     length (heap s) \<le> length (heap s')
   \<and> (\<forall>a < length (heap s).
         gameStarted (heap s' ! a) = gameStarted (heap s ! a)
         \<and> (gameState (heap s' ! a) = None \<longleftrightarrow> gameState (heap s ! a) = None))
   \<and> (\<forall>a. length (heap s) \<le> a \<longrightarrow> a < length (heap s') \<longrightarrow> gameState (heap s' ! a) = None)
   \<and> (timers s' = timers s \<and> nextTimer s' = nextTimer s
        \<or> (\<exists>cb d. timers s' = timers s @ [\<lparr>t_id = nextTimer s, t_due = d, t_repeat = None,
                                             t_cb = cb\<rparr>]
                  \<and> roomOf cb = None \<and> nextTimer s' = Suc (nextTimer s)))"

definition keepsGame :: "GameRoom \<Rightarrow> GameRoom \<Rightarrow> bool" where
  "keepsGame r r' \<longleftrightarrow>
     gameStarted r' = gameStarted r \<and> (gameState r' = None \<longleftrightarrow> gameState r = None)"

section \<open>Coins\<close>

lemma map_of_updatePlayer:
  "map_of (updatePlayer pid f ps) k =
     (if k = pid then map_option f (map_of ps pid) else map_of ps k)"
  by (induction ps) (auto simp: updatePlayer_def)

lemma coinAt_SomeD:
  "coinAt gs cid = Some c \<Longrightarrow> 0 \<le> cid \<and> nat cid < length (coins gs) \<and> c = coins gs ! nat cid"
  by (auto simp: coinAt_def split: if_splits)

lemma coinAt_update:
  "0 \<le> cid \<Longrightarrow>
   coinAt (gs\<lparr>coins := (coins gs)[nat cid := c], players := ps\<rparr>) j =
     (if j = cid \<and> nat cid < length (coins gs) then Some c else coinAt gs j)"
  by (auto simp: coinAt_def nth_list_update nat_eq_iff)

lemma sqrt_less_30: "sqrt v < 30 \<longleftrightarrow> v < 900"
proof -
  have "sqrt 900 = 30" by (rule real_sqrt_unique) simp_all
  then have "sqrt v < 30 \<longleftrightarrow> sqrt v < sqrt 900" by simp
  then show ?thesis by (simp only: real_sqrt_less_iff)
qed

text \<open>
  C5.  A \<open>collectCoin\<close> action of a player of the game: when the coin exists and is not
  collected, the result is the collection event with the new score, the player's score
  grew by exactly 10, that coin (and no other) is now collected and nothing else changed;
  otherwise the result is \<open>null\<close> and the state is unchanged.  In both cases a second
  \<open>collectCoin\<close> of the same id returns \<open>null\<close> and changes nothing, so the score grows
  once.
\<close>

theorem collectCoin_idempotent:
  "map_of (players gs) pid = Some p \<Longrightarrow>
   (let (res, gs') = handleAction now pid (CollectCoin cid) gs in
      (if collectable gs cid
       then res = Some (CoinResult (p_id p) cid (p_score p + 10))
            \<and> map_of (players gs') pid = Some (p\<lparr>p_score := p_score p + 10\<rparr>)
            \<and> (\<forall>k. k \<noteq> pid \<longrightarrow> map_of (players gs') k = map_of (players gs) k)
            \<and> (\<forall>j. coinAt gs' j =
                    (if j = cid then map_option (\<lambda>c. c\<lparr>c_collected := True\<rparr>) (coinAt gs cid)
                     else coinAt gs j))
            \<and> currentMode gs' = currentMode gs \<and> teamScores gs' = teamScores gs
            \<and> blocks gs' = blocks gs \<and> projectiles gs' = projectiles gs
       else res = None \<and> gs' = gs)
      \<and> handleAction now' pid (CollectCoin cid) gs' = (None, gs'))"
  by (auto simp: handleAction_def collectCoin_def collectable_def Let_def map_of_updatePlayer
        coinAt_update dest!: coinAt_SomeD split: option.splits)

theorem collectCoin_idempotent_witness:
  "fst (handleAction 0 ''a'' (CollectCoin 1) demoState) = Some (CoinResult ''a'' 1 10)
   \<and> map (p_score \<circ> snd) (players (snd (handleAction 0 ''a'' (CollectCoin 1) demoState))) = [10, 0]
   \<and> handleAction 5 ''a'' (CollectCoin 1) (snd (handleAction 0 ''a'' (CollectCoin 1) demoState))
       = (None, snd (handleAction 0 ''a'' (CollectCoin 1) demoState))"
  using collectCoin_idempotent[of demoState "''a''" "demoPlayer ''a'' Red" 0 1 5]
  by (simp add: demoState_def demoPlayer_def demoCoin_def handleAction_def collectCoin_def
        coinAt_def updatePlayer_def collectable_def)

lemma coinDist_score [simp]: "coinDist (p\<lparr>p_score := v\<rparr>) c = coinDist p c"
  by (simp add: coinDist_def)

lemma nearby_score [simp]: "nearby (p\<lparr>p_score := v\<rparr>) = nearby p"
  by (rule ext) (simp add: nearby_def)


lemma applyInput_score [simp]: "p_score (applyInput i p) = p_score p"
  by (simp add: applyInput_def Let_def split: option.splits)



section \<open>Blocks\<close>

text \<open>
  C2.  The server's \<open>placeBlock\<close> neither looks at the cell nor at the block type: a trap
  placed on the free cell (5,5) earns 5 (the claim: 10), and a second block placed on the
  same cell by another player is stored as well, reported as placed and earns 5 again
  (the claim: rejected, no score).
\<close>

theorem placeBlock_flat_reward:
  "map (p_score \<circ> snd) (players (snd (handleAction 0 ''a'' (PlaceBlock 5 5 ''trap'') demoState)))
     = [5, 0]
   \<and> (let gs1 = snd (handleAction 0 ''a'' (PlaceBlock 5 5 ''trap'') demoState);
           (res, gs2) = handleAction 1 ''b'' (PlaceBlock 5 5 ''wall'') gs1
       in res = Some (BlockResult ''b'' 5 5 ''wall'')
          \<and> map (\<lambda>b. (b_x b, b_y b, b_type b, b_owner b)) (blocks gs2)
               = [(5, 5, ''trap'', ''a''), (5, 5, ''wall'', ''b'')]
          \<and> map (p_score \<circ> snd) (players gs2) = [5, 5])"
  by (simp add: demoState_def demoPlayer_def handleAction_def placeBlock_def updatePlayer_def)

section \<open>Rooms: capacity and teams\<close>

lemma update_fresh: "k \<notin> fst ` set ps \<Longrightarrow> AList.update k v ps = ps @ [(k, v)]"
  by (induction ps) auto

lemma length_update_le: "length (AList.update k v ps) \<le> Suc (length ps)"
  by (induction ps) auto

lemma addPlayer_full: "playerCount r \<ge> maxPlayers r \<Longrightarrow> addPlayer i n d r = Inl RoomFull"
  by (simp add: addPlayer_def playerCount_def)

lemma addPlayer_Inr:
  "addPlayer i n d r = Inr (p, r') \<Longrightarrow>
     playerCount r < maxPlayers r \<and> maxPlayers r' = maxPlayers r
     \<and> playerCount r' \<le> Suc (playerCount r)
     \<and> roomPlayers r' = AList.update i p (roomPlayers r) \<and> p_team p = assignTeam r
     \<and> gameState r' = gameState r"
  by (auto simp: addPlayer_def playerCount_def Let_def length_update_le split: if_splits)

lemma addPlayer_Inl:
  "addPlayer i n d r = Inl e \<Longrightarrow> e = RoomFull \<and> playerCount r \<ge> maxPlayers r"
  by (auto simp: addPlayer_def playerCount_def Let_def split: if_splits)

lemma addPlayers_bound:
  "playerCount r \<le> maxPlayers r \<Longrightarrow>
     playerCount (addPlayers js r) \<le> maxPlayers r
     \<and> maxPlayers (addPlayers js r) = maxPlayers r"
proof (induction js arbitrary: r)
  case Nil
  then show ?case by simp
next
  case (Cons j js)
  obtain i n d where j: "j = (i, n, d)" by (cases j)
  show ?case
  proof (cases "addPlayer i n d r")
    case (Inl e)
    then show ?thesis using Cons j by simp
  next
    case (Inr pr)
    obtain p r' where pr: "pr = (p, r')" by (cases pr)
    from Inr pr have *: "playerCount r < maxPlayers r" "maxPlayers r' = maxPlayers r"
      "playerCount r' \<le> Suc (playerCount r)"
      using addPlayer_Inr by blast+
    then have "playerCount r' \<le> maxPlayers r'" by simp
    from Cons.IH[OF this] show ?thesis using Inr pr j * by simp
  qed
qed

lemma addPlayers_count:
  "distinct (map fst js) \<Longrightarrow> fst ` set js \<inter> fst ` set (roomPlayers r) = {} \<Longrightarrow>
     playerCount r + length js \<le> maxPlayers r \<Longrightarrow>
     playerCount (addPlayers js r) = playerCount r + length js"
proof (induction js arbitrary: r)
  case Nil
  then show ?case by simp
next
  case (Cons j js)
  obtain i n d where j: "j = (i, n, d)" by (cases j)
  from Cons.prems j have fresh: "i \<notin> fst ` set (roomPlayers r)" by auto
  from Cons.prems have lt: "playerCount r < maxPlayers r" by simp
  then obtain p r' where add: "addPlayer i n d r = Inr (p, r')"
    by (auto simp: addPlayer_def playerCount_def Let_def)
  then have rp: "roomPlayers r' = roomPlayers r @ [(i, p)]" "maxPlayers r' = maxPlayers r"
    using addPlayer_Inr[OF add] fresh by (simp_all add: update_fresh)
  then have cnt: "playerCount r' = Suc (playerCount r)" by (simp add: playerCount_def)
  have "playerCount (addPlayers js r') = playerCount r' + length js"
  proof (rule Cons.IH)
    show "distinct (map fst js)" using Cons.prems by simp
    show "fst ` set js \<inter> fst ` set (roomPlayers r') = {}"
      using Cons.prems j rp by auto
    show "playerCount r' + length js \<le> maxPlayers r'" using Cons.prems cnt rp by simp
  qed
  then show ?case using add j cnt by simp
qed

lemma teamCount_snoc:
  "teamCount t (r\<lparr>roomPlayers := roomPlayers r @ [(i, p)]\<rparr>) =
     teamCount t r + (if p_team p = t then 1 else 0)"
  by (simp add: teamCount_def)

lemma addPlayer_fresh:
  assumes "addPlayer i n d r = Inr (p, r')" "i \<notin> fst ` set (roomPlayers r)"
  shows "r' = r\<lparr>roomPlayers := roomPlayers r @ [(i, p)]\<rparr>" "p_team p = assignTeam r"
  using assms by (auto simp: addPlayer_def Let_def update_fresh split: if_splits)

lemma addPlayer_balanced:
  assumes "addPlayer i n d r = Inr (p, r')" "i \<notin> fst ` set (roomPlayers r)" "balanced r"
  shows "balanced r'"
proof -
  note f = addPlayer_fresh[OF assms(1,2)]
  show ?thesis
    using assms(3) unfolding f(1) balanced_def teamCount_snoc f(2) assignTeam_def
    by auto
qed

lemma addPlayers_balanced:
  "distinct (map fst js) \<Longrightarrow> fst ` set js \<inter> fst ` set (roomPlayers r) = {} \<Longrightarrow> balanced r
     \<Longrightarrow> balanced (addPlayers js r)"
proof (induction js arbitrary: r)
  case Nil
  then show ?case by simp
next
  case (Cons j js)
  obtain i n d where j: "j = (i, n, d)" by (cases j)
  from Cons.prems j have fresh: "i \<notin> fst ` set (roomPlayers r)" by auto
  show ?case
  proof (cases "addPlayer i n d r")
    case (Inl e)
    have "balanced (addPlayers js r)"
      by (rule Cons.IH) (use Cons.prems in auto)
    with Inl j show ?thesis by simp
  next
    case (Inr pr)
    obtain p r' where pr: "pr = (p, r')" by (cases pr)
    with Inr have add: "addPlayer i n d r = Inr (p, r')" by simp
    have r': "roomPlayers r' = roomPlayers r @ [(i, p)]"
      using addPlayer_fresh(1)[OF add fresh] by simp
    have "balanced (addPlayers js r')"
    proof (rule Cons.IH)
      show "distinct (map fst js)" using Cons.prems by simp
      show "fst ` set js \<inter> fst ` set (roomPlayers r') = {}" using Cons.prems j r' by auto
      show "balanced r'" by (rule addPlayer_balanced[OF add fresh Cons.prems(3)])
    qed
    with add j show ?thesis by simp
  qed
qed

text \<open>
  C7, as amended.  When the connection ids of the joins are pairwise distinct, the teams
  of a room that started empty differ by at most one member after any sequence of
  \<open>addPlayer\<close> calls; and every player that \<open>addPlayer\<close> admits gets the team computed from
  the members at that moment: red when red has at most as many members as blue,
  otherwise blue.
\<close>

theorem assignTeam_balance:
  "(distinct (map fst js) \<longrightarrow>
      \<bar>int (teamCount Red (addPlayers js (newGameRoom c priv)))
         - int (teamCount Blue (addPlayers js (newGameRoom c priv)))\<bar> \<le> 1)
   \<and> (addPlayer ident username d r = Inr (p, r') \<longrightarrow>
        p_team p = (if teamCount Red r \<le> teamCount Blue r then Red else Blue))"
proof (intro conjI impI)
  assume d: "distinct (map fst js)"
  have "balanced (newGameRoom c priv)" by (simp add: balanced_def teamCount_def newGameRoom_def)
  moreover have "fst ` set js \<inter> fst ` set (roomPlayers (newGameRoom c priv)) = {}"
    by (simp add: newGameRoom_def)
  ultimately have "balanced (addPlayers js (newGameRoom c priv))"
    using d by (simp add: addPlayers_balanced)
  then show "\<bar>int (teamCount Red (addPlayers js (newGameRoom c priv)))
         - int (teamCount Blue (addPlayers js (newGameRoom c priv)))\<bar> \<le> 1"
    by (simp add: balanced_def)
next
  assume "addPlayer ident username d r = Inr (p, r')"
  then show "p_team p = (if teamCount Red r \<le> teamCount Blue r then Red else Blue)"
    by (auto simp: addPlayer_def Let_def assignTeam_def split: if_splits)
qed

theorem assignTeam_balance_witness:
  "teamCount Red (addPlayers (take 2 rejoin) (newGameRoom ''ROOM01'' False)) = 1
   \<and> teamCount Blue (addPlayers (take 2 rejoin) (newGameRoom ''ROOM01'' False)) = 1
   \<and> (case addPlayer ''c'' ''cy'' demoDraws
              (addPlayers (take 2 rejoin) (newGameRoom ''ROOM01'' False))
       of Inl e \<Rightarrow> False | Inr (p, r') \<Rightarrow> p_team p = Red)"
  using assignTeam_balance[of "take 2 rejoin" "''ROOM01''" False "''c''" "''cy''" demoDraws
      "addPlayers (take 2 rejoin) (newGameRoom ''ROOM01'' False)"]
  by (simp add: rejoin_def newGameRoom_def addPlayer_def assignTeam_def teamCount_def
        demoDraws_def Let_def)

text \<open>
  The claim as stated fails: the connection \<open>b\<close> joins the room a second time (the
  handlers do not check that a connection is in a room already), \<open>Map.set\<close> replaces its
  player object, the tie of one red and one blue member assigns red, and the room has two
  red members and no blue one.
\<close>

theorem assignTeam_rejoin_counterexample:
  "teamCount Red (addPlayers rejoin (newGameRoom ''ROOM01'' False)) = 2
   \<and> teamCount Blue (addPlayers rejoin (newGameRoom ''ROOM01'' False)) = 0"
  by (simp add: rejoin_def newGameRoom_def addPlayer_def assignTeam_def teamCount_def
        demoDraws_def Let_def)

section \<open>Room codes\<close>

lemma charAt_draw:
  assumes "0 \<le> r" "r < 1"
  shows "\<exists>ch \<in> set chars. charAt chars \<lfloor>r * real (length chars)\<rfloor> = [ch]"
proof -
  have len: "length chars = 36" by (simp add: chars_def)
  have a: "0 \<le> \<lfloor>r * 36\<rfloor>" using assms by simp
  have "r * 36 < 36" using assms by simp
  then have b: "\<lfloor>r * 36\<rfloor> < 36" by (simp add: floor_less_iff)
  from a b have c: "nat \<lfloor>r * 36\<rfloor> < length chars" using len by linarith
  have "charAt chars \<lfloor>r * real (length chars)\<rfloor> = [chars ! nat \<lfloor>r * 36\<rfloor>]"
    using a c by (simp add: charAt_def len)
  moreover have "chars ! nat \<lfloor>r * 36\<rfloor> \<in> set chars" using c by (rule nth_mem)
  ultimately show ?thesis by blast
qed

lemma upt_6: "[0..<6] = [0, 1, 2, 3, 4, 5::nat]"
  by code_simp

lemma generateRoomCode_format:
  assumes "\<forall>i<6. 0 \<le> rnd i \<and> rnd i < 1"
  shows "length (generateRoomCode rnd) = 6 \<and> set (generateRoomCode rnd) \<subseteq> set chars"
proof -
  have one: "\<exists>ch \<in> set chars. charAt chars \<lfloor>rnd i * real (length chars)\<rfloor> = [ch]"
    if "i < 6" for i
    using assms that charAt_draw by blast
  obtain c0 where c0: "c0 \<in> set chars" "charAt chars \<lfloor>rnd 0 * real (length chars)\<rfloor> = [c0]"
    using one[of 0] by auto
  obtain c1 where c1: "c1 \<in> set chars" "charAt chars \<lfloor>rnd 1 * real (length chars)\<rfloor> = [c1]"
    using one[of 1] by auto
  obtain c2 where c2: "c2 \<in> set chars" "charAt chars \<lfloor>rnd 2 * real (length chars)\<rfloor> = [c2]"
    using one[of 2] by auto
  obtain c3 where c3: "c3 \<in> set chars" "charAt chars \<lfloor>rnd 3 * real (length chars)\<rfloor> = [c3]"
    using one[of 3] by auto
  obtain c4 where c4: "c4 \<in> set chars" "charAt chars \<lfloor>rnd 4 * real (length chars)\<rfloor> = [c4]"
    using one[of 4] by auto
  obtain c5 where c5: "c5 \<in> set chars" "charAt chars \<lfloor>rnd 5 * real (length chars)\<rfloor> = [c5]"
    using one[of 5] by auto
  have "generateRoomCode rnd = [c0, c1, c2, c3, c4, c5]"
    unfolding generateRoomCode_def upt_6
    by (simp only: list.map concat.simps c0 c1 c2 c3 c4 c5 append.simps)
  then show ?thesis using c0 c1 c2 c3 c4 c5 by simp
qed

lemma zeros_code: "generateRoomCode zeros = ''AAAAAA''"
  by (simp add: generateRoomCode_def upt_6 zeros_def chars_def charAt_def)

lemma halves_code: "generateRoomCode halves = ''SSSSSS''"
  by (simp add: generateRoomCode_def upt_6 halves_def chars_def charAt_def)

text \<open>
  C4, as amended.  When every draw of \<open>Math.random\<close> lies in \<open>[0, 1)\<close>, the code that
  \<open>generateRoomCode\<close> returns has six characters, all from \<open>A-Z0-9\<close>.  \<open>createRoom\<close>, and
  \<open>findAvailableRoom\<close> when no open public room exists, generate one code, do not look
  it up in the directory, and bind it to the new room.
\<close>

theorem roomCode_format:
  "(\<forall>i<6. 0 \<le> rnd i \<and> rnd i < 1) \<Longrightarrow>
     length (generateRoomCode rnd) = 6 \<and> set (generateRoomCode rnd) \<subseteq> set chars
   \<and> fst (createRoom sid username rnd d s) = AckOk (generateRoomCode rnd) sid None
   \<and> map_of (rooms (snd (createRoom sid username rnd d s))) (generateRoomCode rnd)
       = Some (length (heap s))
   \<and> (firstAvailable (heap s) (rooms s) = None \<longrightarrow>
        fst (findAvailableRoom rnd s) = generateRoomCode rnd
        \<and> map_of (rooms (snd (findAvailableRoom rnd s))) (generateRoomCode rnd)
            = Some (length (heap s)))"
  using generateRoomCode_format[of rnd]
  by (simp add: createRoom_def findAvailableRoom_def Let_def addPlayer_def newGameRoom_def
        update_conv')

theorem roomCode_format_witness:
  "generateRoomCode halves = ''SSSSSS''
   \<and> fst (createRoom ''s1'' ''ann'' halves demoDraws initServer) = AckOk ''SSSSSS'' ''s1'' None
   \<and> rooms (snd (createRoom ''s1'' ''ann'' halves demoDraws initServer)) = [(''SSSSSS'', 0)]
   \<and> findAvailableRoom halves initServer
       = (''SSSSSS'', initServer\<lparr>heap := [newGameRoom ''SSSSSS'' False],
                                   rooms := [(''SSSSSS'', 0)]\<rparr>)"
proof -
  have h: "\<forall>i<6. 0 \<le> halves i \<and> halves i < 1" by (simp add: halves_def)
  show ?thesis
    using roomCode_format[OF h, of "''s1''" "''ann''" demoDraws initServer]
    by (simp add: halves_code createRoom_def findAvailableRoom_def Let_def addPlayer_def
          newGameRoom_def initServer_def)
qed

text \<open>
  The claim as stated fails: with the room \<open>AAAAAA\<close> live, a \<open>createRoom\<close> whose draws are
  all 0 returns the code \<open>AAAAAA\<close> again, and the directory entry of the first room is
  overwritten by the second.
\<close>

theorem roomCode_collision_counterexample:
  "rooms (snd (createRoom ''s1'' ''ann'' zeros demoDraws initServer)) = [(''AAAAAA'', 0)]
   \<and> fst (createRoom ''s2'' ''bob'' zeros demoDraws
            (snd (createRoom ''s1'' ''ann'' zeros demoDraws initServer)))
       = AckOk ''AAAAAA'' ''s2'' None
   \<and> rooms (snd (createRoom ''s2'' ''bob'' zeros demoDraws
            (snd (createRoom ''s1'' ''ann'' zeros demoDraws initServer))))
       = [(''AAAAAA'', 1)]"
  by (simp add: zeros_code createRoom_def Let_def addPlayer_def newGameRoom_def initServer_def)

section \<open>Projectiles\<close>







lemma projDist_less:
  "projDist proj p < 30 \<longleftrightarrow> (p_x p - pr_x proj)\<^sup>2 + (p_y p - pr_y proj)\<^sup>2 < 900"
  by (simp add: projDist_def sqrt_less_30)


lemmas update_defs =
  stepProjectile_def moveProjectile_def projDist_less inBounds_def addKill_def update_def
  Let_def



text \<open>
  Outside the amended claim: the step lacks the test \<open>health > 0\<close> that the client's
  collision loop has, so a projectile reaching an eliminated player scores again.  Two
  projectiles on the one player \<open>c\<close> (health 25) in one \<open>update\<close> score 20.
\<close>

lemma eliminated_player_scores_again:
  "teamScores (update 0 0 (battleState\<lparr>players := [(''a'', demoPlayer ''a'' Red),
                                               (''c'', (demoPlayer ''c'' Blue)\<lparr>p_x := 12, p_health := 25\<rparr>)],
                                   projectiles := [demoShot, demoShot]\<rparr>))
     = \<lparr>ts_red = 20, ts_blue = 0\<rparr>"
  by (simp add: update_defs battleState_def battlePlayers_def demoShot_def demoState_def
        demoPlayer_def isHit_def teamScore_def otherTeam_def hitsAlive_def noneNegative_def)

section \<open>Executions: what handlers and closures leave alone\<close>

lemma emit_fields [simp]:
  "timers (emit c e s) = timers s" "clock (emit c e s) = clock s" "heap (emit c e s) = heap s"
  "rooms (emit c e s) = rooms s" "playerRooms (emit c e s) = playerRooms s"
  "nextTimer (emit c e s) = nextTimer s" "outbox (emit c e s) = outbox s @ [(clock s, c, e)]"
  by (simp_all add: emit_def)

lemma setTimeout_fields [simp]:
  "timers (setTimeout cb d s) =
     timers s @ [\<lparr>t_id = nextTimer s, t_due = clock s + d, t_repeat = None, t_cb = cb\<rparr>]"
  "clock (setTimeout cb d s) = clock s" "heap (setTimeout cb d s) = heap s"
  "rooms (setTimeout cb d s) = rooms s" "playerRooms (setTimeout cb d s) = playerRooms s"
  "nextTimer (setTimeout cb d s) = Suc (nextTimer s)" "outbox (setTimeout cb d s) = outbox s"
  by (simp_all add: setTimeout_def)

lemma setInterval_fields [simp]:
  "timers (setInterval cb d s) =
     timers s @ [\<lparr>t_id = nextTimer s, t_due = clock s + d, t_repeat = Some d, t_cb = cb\<rparr>]"
  "clock (setInterval cb d s) = clock s" "heap (setInterval cb d s) = heap s"
  "rooms (setInterval cb d s) = rooms s" "playerRooms (setInterval cb d s) = playerRooms s"
  "nextTimer (setInterval cb d s) = Suc (nextTimer s)" "outbox (setInterval cb d s) = outbox s"
  by (simp_all add: setInterval_def)

lemma clearInterval_fields [simp]:
  "timers (clearInterval h s) = filter (\<lambda>t. \<not> (t_id t = h \<and> t_repeat t \<noteq> None)) (timers s)"
  "clock (clearInterval h s) = clock s" "heap (clearInterval h s) = heap s"
  "rooms (clearInterval h s) = rooms s" "playerRooms (clearInterval h s) = playerRooms s"
  "nextTimer (clearInterval h s) = nextTimer s" "outbox (clearInterval h s) = outbox s"
  by (simp_all add: clearInterval_def)

lemma storeRoom_fields [simp]:
  "timers (storeRoom a r s) = timers s" "clock (storeRoom a r s) = clock s"
  "heap (storeRoom a r s) = (heap s)[a := r]"
  "rooms (storeRoom a r s) = rooms s" "playerRooms (storeRoom a r s) = playerRooms s"
  "nextTimer (storeRoom a r s) = nextTimer s" "outbox (storeRoom a r s) = outbox s"
  by (simp_all add: storeRoom_def)

lemma scheduleStart_fields [simp]:
  "clock (scheduleStart c r s) = clock s" "heap (scheduleStart c r s) = heap s"
  "rooms (scheduleStart c r s) = rooms s" "playerRooms (scheduleStart c r s) = playerRooms s"
  "outbox (scheduleStart c r s) = outbox s"
  by (simp_all add: scheduleStart_def)

lemma scheduleStart_timers [simp]:
  "timers (scheduleStart c r s) =
     timers s @ (if playerCount r \<ge> 2 \<and> \<not> gameStarted r
                 then [\<lparr>t_id = nextTimer s, t_due = clock s + 3000, t_repeat = None,
                        t_cb = StartGameCB c\<rparr>] else [])"
  by (simp add: scheduleStart_def)

lemma findAvailableRoom_fields [simp]:
  "timers (snd (findAvailableRoom rnd s)) = timers s"
  "clock (snd (findAvailableRoom rnd s)) = clock s"
  "outbox (snd (findAvailableRoom rnd s)) = outbox s"
  by (simp_all add: findAvailableRoom_def Let_def split: option.splits)

lemma grows_refl [simp]: "grows s s"
  by (simp add: grows_def)

lemma quickMatch_grows: "grows s (snd (quickMatch sid n rnd d s))"
proof -
  obtain c s1 where f: "findAvailableRoom rnd s = (c, s1)" by (cases "findAvailableRoom rnd s")
  then have s1: "timers s1 = timers s" "clock s1 = clock s" "outbox s1 = outbox s"
    using findAvailableRoom_fields[of rnd s] by simp_all
  show ?thesis
    using s1
    by (auto simp: quickMatch_def f grows_def Let_def split: option.splits sum.splits)
qed

lemma createRoom_grows: "grows s (snd (createRoom sid n rnd d s))"
  by (auto simp: createRoom_def grows_def Let_def split: option.splits sum.splits)

lemma joinRoom_grows: "grows s (snd (joinRoom sid c n d s))"
  by (auto simp: joinRoom_def grows_def Let_def split: option.splits sum.splits)

lemma playerInput_grows: "grows s (playerInput sid i s)"
  by (auto simp: playerInput_def grows_def split: option.splits)

lemma playerAction_grows: "grows s (playerAction sid act s)"
  by (auto simp: playerAction_def grows_def Let_def split: option.splits prod.splits)

lemma disconnect_grows: "grows s (disconnect sid s)"
  by (auto simp: disconnect_def grows_def Let_def split: option.splits)

lemma handle_grows: "grows s (handle e s)"
  by (cases e)
     (simp_all add: quickMatch_grows createRoom_grows joinRoom_grows playerInput_grows
        playerAction_grows disconnect_grows)

lemma grows_keeps: "grows s s' \<Longrightarrow> keeps s s'"
  by (auto simp: grows_def keeps_def)

lemma earliest_Some:
  "earliest ts = Some t \<Longrightarrow> t \<in> set ts \<and> (\<forall>u \<in> set ts. t_due t \<le> t_due u)"
proof (induction ts arbitrary: t)
  case Nil
  then show ?case by simp
next
  case (Cons x xs)
  show ?case
  proof (cases "earliest xs")
    case None
    then have "xs = []" by (cases xs) (auto split: option.splits if_splits)
    with Cons.prems None show ?thesis by simp
  next
    case (Some u)
    note IH = Cons.IH[OF Some]
    show ?thesis
    proof (cases "t_due x \<le> t_due u")
      case True
      with Cons.prems Some have "t = x" by simp
      with True IH show ?thesis by force
    next
      case False
      with Cons.prems Some have "t = u" by simp
      with False IH show ?thesis by force
    qed
  qed
qed

lemma rearm_keeps: "u \<in> set ts \<Longrightarrow> u \<noteq> t \<Longrightarrow> u \<in> set (rearm t ts)"
  by (cases "t_repeat t") (auto simp: rearm_def image_iff)

lemma startGame_grows: "grows s (startGame c rnd s)"
  by (auto simp: startGame_def grows_def Let_def split: option.splits)

lemma runCallback_keeps: "runCallback t rnd s = Some s' \<Longrightarrow> keeps s s'"
proof (cases "t_cb t")
  case (StartGameCB c)
  assume "runCallback t rnd s = Some s'"
  with StartGameCB have "s' = startGame c rnd s" by (simp add: runCallback_def)
  then show ?thesis using startGame_grows grows_keeps by blast
next
  case (GameLoopCB c a)
  assume "runCallback t rnd s = Some s'"
  with GameLoopCB show ?thesis
    by (auto simp: runCallback_def keeps_def split: if_splits option.splits)
next
  case (RoundEndCB c a m dur)
  assume "runCallback t rnd s = Some s'"
  with RoundEndCB show ?thesis
    by (auto simp: runCallback_def keeps_def split: option.splits)
next
  case (RoundStartCB c m dur)
  assume "runCallback t rnd s = Some s'"
  with RoundStartCB show ?thesis
    by (auto simp: runCallback_def keeps_def)
next
  case (GameEndCB c a g)
  assume "runCallback t rnd s = Some s'"
  with GameEndCB show ?thesis
    by (auto simp: runCallback_def keeps_def Let_def split: option.splits)
qed

lemma fire_D:
  assumes "fire rnd s = Some s'"
  shows "\<exists>t. earliest (timers s) = Some t
           \<and> runCallback t rnd (s\<lparr>clock := t_due t, timers := rearm t (timers s)\<rparr>) = Some s'"
  using assms by (auto simp: fire_def split: option.splits)

lemma fire_emitted: "fire rnd s = Some s' \<Longrightarrow> emitted s t c e \<Longrightarrow> emitted s' t c e"
  by (auto dest!: fire_D runCallback_keeps simp: keeps_def emitted_def)

lemma fire_pending:
  assumes p: "pending s due cb" and f: "fire rnd s = Some s'"
  shows "pending s' due cb \<or>
         (\<exists>t. t_due t = due \<and> t_repeat t = None \<and> t_cb t = cb
            \<and> runCallback t rnd (s\<lparr>clock := due, timers := remove1 t (timers s)\<rparr>) = Some s')"
proof -
  from p obtain u where u: "u \<in> set (timers s)" "t_due u = due" "t_repeat u = None" "t_cb u = cb"
    by (auto simp: pending_def)
  from fire_D[OF f] obtain t where t: "earliest (timers s) = Some t"
    and r: "runCallback t rnd (s\<lparr>clock := t_due t, timers := rearm t (timers s)\<rparr>) = Some s'"
    by blast
  from earliest_Some[OF t] u have le: "t_due t \<le> due" by auto
  show ?thesis
  proof (cases "t = u")
    case True
    then have "rearm t (timers s) = remove1 t (timers s)" using u by (simp add: rearm_def)
    with r True u show ?thesis by auto
  next
    case False
    then have "u \<in> set (rearm t (timers s))" using rearm_keeps[OF u(1), of t] by simp
    with runCallback_keeps[OF r] u have "u \<in> set (timers s')" "clock s' = t_due t"
      by (auto simp: keeps_def)
    with le u have "pending s' due cb" by (auto simp: pending_def)
    then show ?thesis ..
  qed
qed

lemma handle_pending:
  assumes "pending s due cb" "\<forall>t \<in> set (timers s). tau \<le> t_due t"
  shows "pending (handle e (s\<lparr>clock := tau\<rparr>)) due cb"
  using assms handle_grows[of "s\<lparr>clock := tau\<rparr>" e]
  by (auto simp: pending_def grows_def)

lemma handle_emitted: "emitted s t c e' \<Longrightarrow> emitted (handle e (s\<lparr>clock := tau\<rparr>)) t c e'"
  using handle_grows[of "s\<lparr>clock := tau\<rparr>" e]
  by (auto simp: emitted_def grows_def)

lemma runCallback_RoundEnd:
  assumes "t_cb t = RoundEndCB c a m dur" "runCallback t rnd s = Some s'"
  shows "pending s' (clock s + 3000) (RoundStartCB c m dur)"
  using assms by (auto simp: runCallback_def pending_def split: option.splits)

lemma runCallback_RoundStart:
  assumes "t_cb t = RoundStartCB c m dur" "runCallback t rnd s = Some s'"
  shows "emitted s' (clock s) c (RoundStart m dur)"
  using assms by (auto simp: runCallback_def emitted_def)

lemma runCallback_GameEnd:
  assumes "t_cb t = GameEndCB c a g" "runCallback t rnd s = Some s'"
  shows "\<exists>f. emitted s' (clock s) c (GameEnd f)"
proof -
  from assms obtain gs where
    "s' = storeRoom a (endGame (heap s ! a)) (clearInterval g (emit c (GameEnd (getFinalScores gs)) s))"
    by (auto simp: runCallback_def Let_def split: option.splits)
  then have "emitted s' (clock s) c (GameEnd (getFinalScores gs))"
    by (simp add: emitted_def)
  then show ?thesis ..
qed

lemma roundInv_fire:
  assumes "roundInv T T' c a m dur s" "fire rnd s = Some s'" "T' = T + 3000"
  shows "roundInv T T' c a m dur s'"
proof -
  consider (A) "pending s T (RoundEndCB c a m dur)"
    | (B) "pending s T' (RoundStartCB c m dur)"
    | (C) "emitted s T' c (RoundStart m dur)"
    using assms(1) by (auto simp: roundInv_def)
  then show ?thesis
  proof cases
    case A
    from fire_pending[OF A assms(2)] show ?thesis
    proof
      assume "pending s' T (RoundEndCB c a m dur)"
      then show ?thesis by (simp add: roundInv_def)
    next
      assume "\<exists>t. t_due t = T \<and> t_repeat t = None \<and> t_cb t = RoundEndCB c a m dur
            \<and> runCallback t rnd (s\<lparr>clock := T, timers := remove1 t (timers s)\<rparr>) = Some s'"
      then obtain t where "t_cb t = RoundEndCB c a m dur"
        "runCallback t rnd (s\<lparr>clock := T, timers := remove1 t (timers s)\<rparr>) = Some s'"
        by blast
      from runCallback_RoundEnd[OF this] have "pending s' T' (RoundStartCB c m dur)"
        using assms(3) by simp
      then show ?thesis by (simp add: roundInv_def)
    qed
  next
    case B
    from fire_pending[OF B assms(2)] show ?thesis
    proof
      assume "pending s' T' (RoundStartCB c m dur)"
      then show ?thesis by (simp add: roundInv_def)
    next
      assume "\<exists>t. t_due t = T' \<and> t_repeat t = None \<and> t_cb t = RoundStartCB c m dur
            \<and> runCallback t rnd (s\<lparr>clock := T', timers := remove1 t (timers s)\<rparr>) = Some s'"
      then obtain t where "t_cb t = RoundStartCB c m dur"
        "runCallback t rnd (s\<lparr>clock := T', timers := remove1 t (timers s)\<rparr>) = Some s'"
        by blast
      from runCallback_RoundStart[OF this] have "emitted s' T' c (RoundStart m dur)"
        by simp
      then show ?thesis by (simp add: roundInv_def)
    qed
  next
    case C
    then show ?thesis using fire_emitted[OF assms(2)] by (simp add: roundInv_def)
  qed
qed

lemma roundInv_exec:
  "exec allowed s s' \<Longrightarrow> roundInv T T' c a m dur s \<Longrightarrow> T' = T + 3000
     \<Longrightarrow> roundInv T T' c a m dur s'"
proof (induction rule: exec.induct)
  case (exec_refl s)
  then show ?case by simp
next
  case (exec_fire s s' rnd s'')
  then show ?case using roundInv_fire by blast
next
  case (exec_inbound s s' e tau)
  from exec_inbound.IH[OF exec_inbound.prems] exec_inbound.hyps(4)
  show ?case
    unfolding roundInv_def using handle_pending handle_emitted by blast
qed

lemma endInv_fire:
  assumes "endInv T c a g s" "fire rnd s = Some s'"
  shows "endInv T c a g s'"
proof -
  consider (A) "pending s T (GameEndCB c a g)" | (C) "\<exists>f. emitted s T c (GameEnd f)"
    using assms(1) by (auto simp: endInv_def)
  then show ?thesis
  proof cases
    case A
    from fire_pending[OF A assms(2)] show ?thesis
    proof
      assume "pending s' T (GameEndCB c a g)"
      then show ?thesis by (simp add: endInv_def)
    next
      assume "\<exists>t. t_due t = T \<and> t_repeat t = None \<and> t_cb t = GameEndCB c a g
            \<and> runCallback t rnd (s\<lparr>clock := T, timers := remove1 t (timers s)\<rparr>) = Some s'"
      then obtain t where "t_cb t = GameEndCB c a g"
        "runCallback t rnd (s\<lparr>clock := T, timers := remove1 t (timers s)\<rparr>) = Some s'"
        by blast
      from runCallback_GameEnd[OF this] have "\<exists>f. emitted s' T c (GameEnd f)"
        by simp
      then show ?thesis by (simp add: endInv_def)
    qed
  next
    case C
    then show ?thesis using fire_emitted[OF assms(2)] by (auto simp: endInv_def)
  qed
qed

lemma endInv_exec:
  "exec allowed s s' \<Longrightarrow> endInv T c a g s \<Longrightarrow> endInv T c a g s'"
proof (induction rule: exec.induct)
  case (exec_refl s)
  then show ?case .
next
  case (exec_fire s s' rnd s'')
  then show ?case using endInv_fire by blast
next
  case (exec_inbound s s' e tau)
  from exec_inbound.IH[OF exec_inbound.prems] exec_inbound.hyps(4)
  show ?case
    unfolding endInv_def using handle_pending handle_emitted by blast
qed

lemma emitted_exec: "exec allowed s s' \<Longrightarrow> emitted s t c e \<Longrightarrow> emitted s' t c e"
proof (induction rule: exec.induct)
  case (exec_refl s)
  then show ?case .
next
  case (exec_fire s s' rnd s'')
  then show ?case using fire_emitted by blast
next
  case (exec_inbound s s' e tau)
  then show ?case using handle_emitted by blast
qed

lemma startGame_schedule:
  assumes "lookupRoom s c = Some (a, room)" "\<not> gameStarted room"
  shows "emitted (startGame c rnd s) (clock s) c (RoundStart Race 120)"
    "pending (startGame c rnd s) (clock s + 120000) (RoundEndCB c a Build 180)"
    "pending (startGame c rnd s) (clock s + 303000) (RoundEndCB c a Battle 150)"
    "\<exists>g. pending (startGame c rnd s) (clock s + 456000) (GameEndCB c a g)"
  using assms by (auto simp: startGame_def Let_def emitted_def pending_def)

section \<open>Executions: the mode of the simulation\<close>

lemma lookupRoom_heap: "lookupRoom s c = Some (a, r) \<Longrightarrow> a < length (heap s) \<and> r = heap s ! a"
  by (auto simp: lookupRoom_def split: option.splits if_splits)

lemma list_all_update: "list_all P xs \<Longrightarrow> P x \<Longrightarrow> list_all P (xs[a := x])"
  by (auto simp: list_all_iff dest!: subsetD[OF set_update_subset_insert])

lemma raceRoom_addPlayer: "addPlayer i n d r = Inr (p, r') \<Longrightarrow> raceRoom r \<Longrightarrow> raceRoom r'"
  by (auto simp: addPlayer_def raceRoom_def Let_def split: if_splits)

lemma raceRoom_new [simp]: "raceRoom (newGameRoom c priv)"
  by (simp add: raceRoom_def newGameRoom_def)

lemma raceRoom_removePlayer: "raceRoom r \<Longrightarrow> raceRoom (removePlayer i r)"
  by (auto simp: raceRoom_def removePlayer_def removePlayerGS_def split: option.splits)

lemma raceRoom_startGameRoom: "raceRoom r \<Longrightarrow> raceRoom (startGameRoom rnd r)"
  by (auto simp: raceRoom_def startGameRoom_def newGameState_def Let_def)

lemma raceRoom_endGame [simp]: "raceRoom (endGame r)"
  by (simp add: raceRoom_def endGame_def)

lemma raceRoom_withGameState: "currentMode gs = Race \<Longrightarrow> raceRoom (withGameState gs r)"
  by (simp add: raceRoom_def withGameState_def)

lemma currentMode_updatePlayerInput [simp]:
  "currentMode (updatePlayerInput pid i gs) = currentMode gs"
  by (auto simp: updatePlayerInput_def Let_def split: option.splits prod.splits)

lemma currentMode_handleAction [simp]:
  "currentMode (snd (handleAction now pid act gs)) = currentMode gs"
  by (cases act)
     (auto simp: handleAction_def collectCoin_def placeBlock_def createProjectile_def
        activateBoost_def Let_def split: option.splits)

lemma raceOnly_heap: "raceOnly s \<Longrightarrow> a < length (heap s) \<Longrightarrow> raceRoom (heap s ! a)"
  by (simp add: raceOnly_def list_all_length)

lemma routed_D:
  "routed s sid = Some (c, a, room, gs) \<Longrightarrow>
     a < length (heap s) \<and> room = heap s ! a \<and> gameState room = Some gs"
  by (auto simp: routed_def dest: lookupRoom_heap split: option.splits if_splits)

lemma raceOnly_quickMatch: "raceOnly s \<Longrightarrow> raceOnly (snd (quickMatch sid n rnd d s))"
proof -
  assume r: "raceOnly s"
  obtain c s1 where f: "findAvailableRoom rnd s = (c, s1)" by (cases "findAvailableRoom rnd s")
  then have s1: "raceOnly s1"
    using r by (auto simp: findAvailableRoom_def raceOnly_def Let_def split: option.splits)
  show ?thesis
  proof (cases "lookupRoom s1 c")
    case None
    then show ?thesis using s1 f by (simp add: quickMatch_def)
  next
    case (Some ar)
    obtain a room where ar: "ar = (a, room)" by (cases ar)
    from Some ar have h: "a < length (heap s1)" "room = heap s1 ! a" using lookupRoom_heap by auto
    then have rr: "raceRoom room" using s1 raceOnly_heap by simp
    show ?thesis
    proof (cases "addPlayer sid n d room")
      case (Inl e)
      then show ?thesis using s1 f Some ar by (simp add: quickMatch_def)
    next
      case (Inr pr)
      obtain p room' where pr: "pr = (p, room')" by (cases pr)
      from Inr pr rr have "raceRoom room'" using raceRoom_addPlayer by blast
      then show ?thesis
        using s1 f Some ar Inr pr
        by (simp add: quickMatch_def Let_def raceOnly_def list_all_update raceUpdate_def)
    qed
  qed
qed

lemma raceOnly_createRoom: "raceOnly s \<Longrightarrow> raceOnly (snd (createRoom sid n rnd d s))"
  by (auto simp: createRoom_def raceOnly_def Let_def split: sum.splits
        dest: raceRoom_addPlayer[OF _ raceRoom_new])

lemma raceOnly_joinRoom: "raceOnly s \<Longrightarrow> raceOnly (snd (joinRoom sid c n d s))"
proof -
  assume r: "raceOnly s"
  show ?thesis
  proof (cases "lookupRoom s (toUpperCase c)")
    case None
    then show ?thesis using r by (simp add: joinRoom_def)
  next
    case (Some ar)
    obtain a room where ar: "ar = (a, room)" by (cases ar)
    from Some ar have h: "a < length (heap s)" "room = heap s ! a" using lookupRoom_heap by auto
    then have rr: "raceRoom room" using r raceOnly_heap by simp
    show ?thesis
    proof (cases "addPlayer sid n d room")
      case (Inl e)
      then show ?thesis using r Some ar by (simp add: joinRoom_def)
    next
      case (Inr pr)
      obtain p room' where pr: "pr = (p, room')" by (cases pr)
      from Inr pr rr have "raceRoom room'" using raceRoom_addPlayer by blast
      then show ?thesis
        using r Some ar Inr pr
        by (simp add: joinRoom_def Let_def raceOnly_def list_all_update raceUpdate_def)
    qed
  qed
qed

lemma raceOnly_playerInput: "raceOnly s \<Longrightarrow> raceOnly (playerInput sid i s)"
proof -
  assume r: "raceOnly s"
  show ?thesis
  proof (cases "routed s sid")
    case None
    then show ?thesis using r by (simp add: playerInput_def)
  next
    case (Some x)
    obtain c a room gs where x: "x = (c, a, room, gs)" by (cases x)
    from routed_D[OF Some[unfolded x]] r have "currentMode gs = Race"
      using raceOnly_heap[OF r, of a] by (auto simp: raceRoom_def)
    then show ?thesis
      using r Some x
      by (simp add: playerInput_def raceOnly_def list_all_update raceRoom_withGameState)
  qed
qed

lemma raceOnly_playerAction: "raceOnly s \<Longrightarrow> raceOnly (playerAction sid act s)"
proof -
  assume r: "raceOnly s"
  show ?thesis
  proof (cases "routed s sid")
    case None
    then show ?thesis using r by (simp add: playerAction_def)
  next
    case (Some x)
    obtain c a room gs where x: "x = (c, a, room, gs)" by (cases x)
    obtain res gs' where h: "handleAction (clock s) sid act gs = (res, gs')"
      by (cases "handleAction (clock s) sid act gs")
    from routed_D[OF Some[unfolded x]] r have "currentMode gs = Race"
      using raceOnly_heap[OF r, of a] by (auto simp: raceRoom_def)
    then have "currentMode gs' = Race"
      using currentMode_handleAction[of "clock s" sid act gs] h by simp
    then show ?thesis
      using r Some x h
      by (auto simp: playerAction_def raceOnly_def list_all_update raceRoom_withGameState
            raceUpdate_def Let_def split: option.splits)
  qed
qed

lemma raceOnly_disconnect: "raceOnly s \<Longrightarrow> raceOnly (disconnect sid s)"
proof -
  assume r: "raceOnly s"
  show ?thesis
  proof (cases "map_of (playerRooms s) sid")
    case None
    then show ?thesis using r by (simp add: disconnect_def)
  next
    case (Some c)
    show ?thesis
    proof (cases "lookupRoom s c")
      case None
      then show ?thesis using r Some by (simp add: disconnect_def raceOnly_def)
    next
      case (Some ar)
      obtain a room where ar: "ar = (a, room)" by (cases ar)
      from Some ar have h: "a < length (heap s)" "room = heap s ! a" using lookupRoom_heap by auto
      then have "raceRoom (removePlayer sid room)" using r raceOnly_heap raceRoom_removePlayer by simp
      then show ?thesis
        using r \<open>map_of (playerRooms s) sid = Some c\<close> Some ar
        by (simp add: disconnect_def Let_def raceOnly_def list_all_update raceUpdate_def)
    qed
  qed
qed

lemma raceOnly_handle: "raceOnly s \<Longrightarrow> raceOnly (handle e s)"
  by (cases e)
     (simp_all add: raceOnly_quickMatch raceOnly_createRoom raceOnly_joinRoom
        raceOnly_playerInput raceOnly_playerAction raceOnly_disconnect)

lemma raceOnly_startGame: "raceOnly s \<Longrightarrow> raceOnly (startGame c rnd s)"
proof -
  assume r: "raceOnly s"
  show ?thesis
  proof (cases "lookupRoom s c")
    case None
    then show ?thesis using r by (simp add: startGame_def)
  next
    case (Some ar)
    obtain a room where ar: "ar = (a, room)" by (cases ar)
    from Some ar have h: "a < length (heap s)" "room = heap s ! a" using lookupRoom_heap by auto
    then have "raceRoom (startGameRoom rnd room)"
      using r raceOnly_heap raceRoom_startGameRoom by simp
    then show ?thesis
      using r Some ar
      by (simp add: startGame_def Let_def raceOnly_def list_all_update raceUpdate_def)
  qed
qed

lemma raceOnly_runCallback:
  assumes "raceOnly s" "runCallback t rnd s = Some s'"
  shows "raceOnly s'"
proof (cases "t_cb t")
  case (StartGameCB c)
  with assms show ?thesis by (auto simp: runCallback_def raceOnly_startGame)
next
  case (GameLoopCB c a)
  show ?thesis
  proof (cases "map_of (rooms s) c = None")
    case True
    with assms GameLoopCB show ?thesis by (auto simp: runCallback_def raceOnly_def)
  next
    case False
    with assms GameLoopCB obtain gs where gs: "heldState s a = Some gs"
      and s': "s' = emit c (GameStateUpdate (getState gs)) s"
      by (auto simp: runCallback_def split: option.splits)
    from gs have "a < length (heap s)" "gameState (heap s ! a) = Some gs"
      by (auto simp: heldState_def split: if_splits)
    then have "currentMode gs = Race"
      using raceOnly_heap[OF assms(1), of a] by (simp add: raceRoom_def)
    then show ?thesis
      using assms(1) s' by (simp add: raceOnly_def raceUpdate_def getState_def)
  qed
next
  case (RoundEndCB c a m dur)
  with assms show ?thesis
    by (auto simp: runCallback_def raceOnly_def raceUpdate_def split: option.splits)
next
  case (RoundStartCB c m dur)
  with assms show ?thesis
    by (auto simp: runCallback_def raceOnly_def raceUpdate_def)
next
  case (GameEndCB c a g)
  with assms show ?thesis
    by (auto simp: runCallback_def raceOnly_def raceUpdate_def Let_def list_all_update
          split: option.splits)
qed

lemma raceOnly_fire: "raceOnly s \<Longrightarrow> fire rnd s = Some s' \<Longrightarrow> raceOnly s'"
proof -
  assume r: "raceOnly s" and f: "fire rnd s = Some s'"
  from fire_D[OF f] obtain t where
    "runCallback t rnd (s\<lparr>clock := t_due t, timers := rearm t (timers s)\<rparr>) = Some s'" by blast
  moreover have "raceOnly (s\<lparr>clock := t_due t, timers := rearm t (timers s)\<rparr>)"
    using r by (simp add: raceOnly_def)
  ultimately show ?thesis using raceOnly_runCallback by blast
qed

lemma raceOnly_exec: "exec allowed s s' \<Longrightarrow> raceOnly s \<Longrightarrow> raceOnly s'"
proof (induction rule: exec.induct)
  case (exec_refl s)
  then show ?case .
next
  case (exec_fire s s' rnd s'')
  then show ?case using raceOnly_fire by blast
next
  case (exec_inbound s s' e tau)
  then have "raceOnly (s'\<lparr>clock := tau\<rparr>)" by (simp add: raceOnly_def)
  then show ?case by (rule raceOnly_handle)
qed

section \<open>Executions: a room that left the directory\<close>











section \<open>Scripts are executions\<close>

lemma exec_trans: "exec allowed s' s'' \<Longrightarrow> exec allowed s s' \<Longrightarrow> exec allowed s s''"
proof (induction rule: exec.induct)
  case (exec_refl s)
  then show ?case .
next
  case (exec_fire s1 s2 rnd s3)
  then show ?case using exec.exec_fire by blast
next
  case (exec_inbound s1 s2 e tau)
  then show ?case using exec.exec_inbound by blast
qed

lemma run_exec:
  "run st s = Some s' \<Longrightarrow> list_all allowed (inbounds st) \<Longrightarrow> exec allowed s s'"
proof (induction st arbitrary: s)
  case Nil
  then show ?case by (simp add: exec_refl)
next
  case (Cons x st)
  show ?case
  proof (cases x)
    case (Fire rnd)
    with Cons.prems obtain s1 where f: "fire rnd s = Some s1" and r: "run st s1 = Some s'"
      by (auto split: option.splits)
    have "exec allowed s s1"
      using exec_fire[where allowed=allowed and s=s and s'=s and s''=s1] exec_refl f by blast
    moreover have "exec allowed s1 s'" using Cons.IH[OF r] Cons.prems(2) Fire by simp
    ultimately show ?thesis using exec_trans by blast
  next
    case (Inbound tau e)
    with Cons.prems have c: "clock s \<le> tau" "\<forall>t \<in> set (timers s). tau \<le> t_due t"
      and r: "run st (handle e (s\<lparr>clock := tau\<rparr>)) = Some s'" and al: "allowed e"
      by (auto simp: list_all_iff split: if_splits)
    have "exec allowed s (handle e (s\<lparr>clock := tau\<rparr>))"
      using exec_inbound[where allowed=allowed and s=s and s'=s and e=e and tau=tau] exec_refl al c
      by blast
    moreover have "exec allowed (handle e (s\<lparr>clock := tau\<rparr>)) s'"
      using Cons.IH[OF r] Cons.prems(2) Inbound by simp
    ultimately show ?thesis using exec_trans by blast
  qed
qed

section \<open>Executions: no closure throws\<close>

lemma roomOf_None:
  "roomOf cb = None \<Longrightarrow>
     endOf cb = None \<and> (\<forall>c a m d. cb \<noteq> RoundEndCB c a m d) \<and> (\<forall>c a. cb \<noteq> GameLoopCB c a)"
  by (cases cb) simp_all

lemma endOf_Some: "endOf cb = Some (a, g) \<Longrightarrow> \<exists>c. cb = GameEndCB c a g"
  by (cases cb) simp_all

lemma wellFormed_started:
  "wellFormed s \<Longrightarrow> a < length (heap s) \<Longrightarrow> gameState (heap s ! a) \<noteq> None \<Longrightarrow> gameStarted (heap s ! a)"
  unfolding wellFormed_def by (elim conjE) simp

lemma wellFormed_running: "wellFormed s \<Longrightarrow> t \<in> set (timers s) \<Longrightarrow> roomOf (t_cb t) = Some a \<Longrightarrow> running s a"
  unfolding wellFormed_def by (elim conjE) simp

lemma wellFormed_roundEnd:
  "wellFormed s \<Longrightarrow> t \<in> set (timers s) \<Longrightarrow> t_cb t = RoundEndCB c a m dur \<Longrightarrow>
     \<exists>u \<in> set (timers s). \<exists>g. endOf (t_cb u) = Some (a, g) \<and> t_due t < t_due u"
  unfolding wellFormed_def by (elim conjE) simp

lemma wellFormed_gameLoop:
  "wellFormed s \<Longrightarrow> t \<in> set (timers s) \<Longrightarrow> t_cb t = GameLoopCB c a \<Longrightarrow>
     t_repeat t \<noteq> None \<and> (\<exists>u \<in> set (timers s). endOf (t_cb u) = Some (a, t_id t))"
  unfolding wellFormed_def by (elim conjE) simp

lemma wellFormed_oneEnd:
  "wellFormed s \<Longrightarrow> u \<in> set (timers s) \<Longrightarrow> v \<in> set (timers s) \<Longrightarrow>
     endOf (t_cb u) = Some (a, g) \<Longrightarrow> endOf (t_cb v) = Some (a, g') \<Longrightarrow> u = v"
  unfolding wellFormed_def by (elim conjE) blast

lemma wellFormed_interval:
  "wellFormed s \<Longrightarrow> t \<in> set (timers s) \<Longrightarrow> t_repeat t \<noteq> None \<Longrightarrow> \<exists>c a. t_cb t = GameLoopCB c a"
  unfolding wellFormed_def by (elim conjE) simp

lemma wellFormed_distinct: "wellFormed s \<Longrightarrow> distinct (map t_id (timers s))"
  unfolding wellFormed_def by (elim conjE) simp

lemma wellFormed_fresh: "wellFormed s \<Longrightarrow> t \<in> set (timers s) \<Longrightarrow> t_id t < nextTimer s"
  unfolding wellFormed_def by (elim conjE) simp

lemma wellFormedI:
  assumes "\<And>a. a < length (heap s) \<Longrightarrow> gameState (heap s ! a) \<noteq> None \<Longrightarrow> gameStarted (heap s ! a)"
    and "\<And>t a. t \<in> set (timers s) \<Longrightarrow> roomOf (t_cb t) = Some a \<Longrightarrow> running s a"
    and "\<And>t c a m dur. t \<in> set (timers s) \<Longrightarrow> t_cb t = RoundEndCB c a m dur \<Longrightarrow>
           \<exists>u \<in> set (timers s). \<exists>g. endOf (t_cb u) = Some (a, g) \<and> t_due t < t_due u"
    and "\<And>t c a. t \<in> set (timers s) \<Longrightarrow> t_cb t = GameLoopCB c a \<Longrightarrow>
           t_repeat t \<noteq> None \<and> (\<exists>u \<in> set (timers s). endOf (t_cb u) = Some (a, t_id t))"
    and "\<And>u v a g g'. u \<in> set (timers s) \<Longrightarrow> v \<in> set (timers s) \<Longrightarrow>
           endOf (t_cb u) = Some (a, g) \<Longrightarrow> endOf (t_cb v) = Some (a, g') \<Longrightarrow> u = v"
    and "\<And>t. t \<in> set (timers s) \<Longrightarrow> t_repeat t \<noteq> None \<Longrightarrow> \<exists>c a. t_cb t = GameLoopCB c a"
    and "distinct (map t_id (timers s))"
    and "\<And>t. t \<in> set (timers s) \<Longrightarrow> t_id t < nextTimer s"
  shows "wellFormed s"
  unfolding wellFormed_def using assms by (intro conjI ballI allI impI) blast+

lemma wellFormed_sameGames:
  assumes w: "wellFormed s" and g: "sameGames s s'"
  shows "wellFormed s'"
proof -
  from g have len: "length (heap s) \<le> length (heap s')"
    and old: "\<And>a. a < length (heap s) \<Longrightarrow>
         gameStarted (heap s' ! a) = gameStarted (heap s ! a)
         \<and> (gameState (heap s' ! a) = None \<longleftrightarrow> gameState (heap s ! a) = None)"
    and new: "\<And>a. length (heap s) \<le> a \<Longrightarrow> a < length (heap s') \<Longrightarrow> gameState (heap s' ! a) = None"
    by (auto simp: sameGames_def)
  have run: "running s a \<Longrightarrow> running s' a" for a
    using len old[of a] by (auto simp: running_def)
  from g consider (same) "timers s' = timers s" "nextTimer s' = nextTimer s"
    | (more) cb d where "timers s' = timers s @ [\<lparr>t_id = nextTimer s, t_due = d, t_repeat = None,
                                            t_cb = cb\<rparr>]"
        "roomOf cb = None" "nextTimer s' = Suc (nextTimer s)"
    by (auto simp: sameGames_def)
  then have tm: "\<exists>ts. timers s' = timers s @ ts \<and> (\<forall>t \<in> set ts. roomOf (t_cb t) = None
        \<and> endOf (t_cb t) = None \<and> (\<forall>c a m d. t_cb t \<noteq> RoundEndCB c a m d)
        \<and> (\<forall>c a. t_cb t \<noteq> GameLoopCB c a) \<and> t_repeat t = None
        \<and> nextTimer s \<le> t_id t \<and> t_id t < nextTimer s')
        \<and> distinct (map t_id ts) \<and> nextTimer s \<le> nextTimer s'"
  proof cases
    case same
    then show ?thesis by simp
  next
    case more
    from roomOf_None[OF more(2)] more show ?thesis by simp
  qed
  then obtain ts where ts: "timers s' = timers s @ ts"
    and tsP: "\<And>t. t \<in> set ts \<Longrightarrow> roomOf (t_cb t) = None
        \<and> endOf (t_cb t) = None \<and> (\<forall>c a m d. t_cb t \<noteq> RoundEndCB c a m d)
        \<and> (\<forall>c a. t_cb t \<noteq> GameLoopCB c a) \<and> t_repeat t = None
        \<and> nextTimer s \<le> t_id t \<and> t_id t < nextTimer s'"
    and tsD: "distinct (map t_id ts)" and nt: "nextTimer s \<le> nextTimer s'"
    by blast
  have inold: "u \<in> set (timers s)" if "u \<in> set (timers s')" "roomOf (t_cb u) \<noteq> None" for u
    using that tsP[of u] by (auto simp: ts)
  have sub: "u \<in> set (timers s) \<Longrightarrow> u \<in> set (timers s')" for u by (simp add: ts)
  show ?thesis
  proof (rule wellFormedI)
    fix a assume a: "a < length (heap s')" "gameState (heap s' ! a) \<noteq> None"
    then have "a < length (heap s)" using new[of a] by (cases "a < length (heap s)") auto
    with a old[of a] wellFormed_started[OF w, of a] show "gameStarted (heap s' ! a)" by auto
  next
    fix t a assume "t \<in> set (timers s')" "roomOf (t_cb t) = Some a"
    then show "running s' a" using inold[of t] wellFormed_running[OF w, of t a] run by auto
  next
    fix t c a m dur assume t: "t \<in> set (timers s')" "t_cb t = RoundEndCB c a m dur"
    then have "t \<in> set (timers s)" using inold[of t] by simp
    from wellFormed_roundEnd[OF w this t(2)] sub
    show "\<exists>u \<in> set (timers s'). \<exists>g. endOf (t_cb u) = Some (a, g) \<and> t_due t < t_due u"
      by blast
  next
    fix t c a assume t: "t \<in> set (timers s')" "t_cb t = GameLoopCB c a"
    then have "t \<in> set (timers s)" using inold[of t] by simp
    from wellFormed_gameLoop[OF w this t(2)] sub
    show "t_repeat t \<noteq> None \<and> (\<exists>u \<in> set (timers s'). endOf (t_cb u) = Some (a, t_id t))"
      by blast
  next
    fix u v a g g'
    assume "u \<in> set (timers s')" "v \<in> set (timers s')"
      and e: "endOf (t_cb u) = Some (a, g)" "endOf (t_cb v) = Some (a, g')"
    then have "u \<in> set (timers s)" "v \<in> set (timers s)"
      using tsP[of u] tsP[of v] by (auto simp: ts)
    from wellFormed_oneEnd[OF w this e] show "u = v" .
  next
    fix t assume "t \<in> set (timers s')" and e: "t_repeat t \<noteq> None"
    then have "t \<in> set (timers s)" using tsP[of t] by (auto simp: ts)
    from wellFormed_interval[OF w this e] show "\<exists>c a. t_cb t = GameLoopCB c a" .
  next
    show "distinct (map t_id (timers s'))"
      using wellFormed_distinct[OF w] wellFormed_fresh[OF w] tsD tsP by (fastforce simp: ts)
  next
    fix t assume "t \<in> set (timers s')"
    then show "t_id t < nextTimer s'"
      using wellFormed_fresh[OF w, of t] tsP[of t] nt by (auto simp: ts)
  qed
qed

lemma keepsGame_addPlayer: "addPlayer i n d r = Inr (p, r') \<Longrightarrow> keepsGame r r'"
  by (auto simp: addPlayer_def keepsGame_def Let_def split: if_splits)

lemma keepsGame_removePlayer: "keepsGame r (removePlayer i r)"
  by (simp add: removePlayer_def keepsGame_def)

lemma keepsGame_withGameState: "gameState r \<noteq> None \<Longrightarrow> keepsGame r (withGameState gs r)"
  by (simp add: withGameState_def keepsGame_def)

lemma sameGames_refl: "sameGames s s"
  by (simp add: sameGames_def)

lemma sameGames_store:
  assumes "a < length (heap s)" "keepsGame (heap s ! a) r'"
    and "heap s' = (heap s)[a := r']"
    and "timers s' = timers s \<and> nextTimer s' = nextTimer s
        \<or> (\<exists>cb d. timers s' = timers s @ [\<lparr>t_id = nextTimer s, t_due = d, t_repeat = None,
                                            t_cb = cb\<rparr>]
                  \<and> roomOf cb = None \<and> nextTimer s' = Suc (nextTimer s))"
  shows "sameGames s s'"
  using assms by (auto simp: sameGames_def keepsGame_def nth_list_update)

lemma sameGames_joined:
  assumes "a < length (heap s)" "keepsGame (heap s ! a) r'"
    and "heap s4 = (heap s)[a := r']" "timers s4 = timers s" "nextTimer s4 = nextTimer s"
  shows "sameGames s (scheduleStart c r' s4)"
  by (rule sameGames_store[OF assms(1,2)]) (simp_all add: assms scheduleStart_def)

lemma sameGames_trans_new:
  assumes h: "heap s1 = heap s @ [r]" and n: "gameState r = None" and t: "timers s1 = timers s"
    "nextTimer s1 = nextTimer s" and g: "sameGames s1 s'"
  shows "sameGames s s'"
proof -
  from g have len: "length (heap s1) \<le> length (heap s')"
    and old: "\<And>a. a < length (heap s1) \<Longrightarrow>
         gameStarted (heap s' ! a) = gameStarted (heap s1 ! a)
         \<and> (gameState (heap s' ! a) = None \<longleftrightarrow> gameState (heap s1 ! a) = None)"
    and new: "\<And>a. length (heap s1) \<le> a \<Longrightarrow> a < length (heap s') \<Longrightarrow>
         gameState (heap s' ! a) = None"
    and tm: "timers s' = timers s1 \<and> nextTimer s' = nextTimer s1
        \<or> (\<exists>cb d. timers s' = timers s1 @ [\<lparr>t_id = nextTimer s1, t_due = d, t_repeat = None,
                                            t_cb = cb\<rparr>]
                  \<and> roomOf cb = None \<and> nextTimer s' = Suc (nextTimer s1))"
    unfolding sameGames_def by blast+
  have l1: "length (heap s1) = Suc (length (heap s))" by (simp add: h)
  have a1: "gameStarted (heap s' ! a) = gameStarted (heap s ! a)
         \<and> (gameState (heap s' ! a) = None \<longleftrightarrow> gameState (heap s ! a) = None)"
    if "a < length (heap s)" for a
    using old[of a] that by (simp add: h nth_append)
  have a2: "gameState (heap s' ! a) = None"
    if "length (heap s) \<le> a" "a < length (heap s')" for a
  proof (cases "a = length (heap s)")
    case True
    then show ?thesis using old[of a] n by (simp add: h)
  next
    case False
    with that have "length (heap s1) \<le> a" by (simp add: l1)
    then show ?thesis using new that by blast
  qed
  show ?thesis
    unfolding sameGames_def using len l1 a1 a2 tm t by auto
qed

lemma sameGames_quickMatch: "sameGames s (snd (quickMatch sid n rnd d s))"
proof (cases "firstAvailable (heap s) (rooms s)")
  case None
  define c where "c = generateRoomCode rnd"
  define s1 where "s1 = s\<lparr>heap := heap s @ [newGameRoom c False],
                          rooms := AList.update c (length (heap s)) (rooms s)\<rparr>"
  have f: "findAvailableRoom rnd s = (c, s1)"
    by (simp add: findAvailableRoom_def None c_def s1_def Let_def)
  have "sameGames s1 (snd (quickMatch sid n rnd d s))"
  proof (cases "lookupRoom s1 c")
    case None
    then show ?thesis by (simp add: quickMatch_def f sameGames_refl)
  next
    case (Some ar)
    obtain a room where ar: "ar = (a, room)" by (cases ar)
    from Some ar have h: "a < length (heap s1)" "room = heap s1 ! a" using lookupRoom_heap by auto
    show ?thesis
    proof (cases "addPlayer sid n d room")
      case (Inl e)
      then show ?thesis using Some ar by (simp add: quickMatch_def f sameGames_refl)
    next
      case (Inr pr)
      obtain p room' where pr: "pr = (p, room')" by (cases pr)
      from Inr pr have k: "keepsGame (heap s1 ! a) room'" using keepsGame_addPlayer h by blast
      show ?thesis
        using Some ar Inr pr sameGames_joined[OF h(1) k]
        by (simp add: quickMatch_def f Let_def)
    qed
  qed
  then show ?thesis
    by (rule sameGames_trans_new[where r="newGameRoom c False", rotated 4])
       (simp_all add: s1_def newGameRoom_def)
next
  case (Some c)
  have f: "findAvailableRoom rnd s = (c, s)"
    by (simp add: findAvailableRoom_def Some)
  show ?thesis
  proof (cases "lookupRoom s c")
    case None
    then show ?thesis by (simp add: quickMatch_def f sameGames_refl)
  next
    case (Some ar)
    obtain a room where ar: "ar = (a, room)" by (cases ar)
    from Some ar have h: "a < length (heap s)" "room = heap s ! a" using lookupRoom_heap by auto
    show ?thesis
    proof (cases "addPlayer sid n d room")
      case (Inl e)
      then show ?thesis using Some ar by (simp add: quickMatch_def f sameGames_refl)
    next
      case (Inr pr)
      obtain p room' where pr: "pr = (p, room')" by (cases pr)
      from Inr pr have k: "keepsGame (heap s ! a) room'" using keepsGame_addPlayer h by blast
      show ?thesis
        using Some ar Inr pr sameGames_joined[OF h(1) k]
        by (simp add: quickMatch_def f Let_def)
    qed
  qed
qed

lemma sameGames_createRoom: "sameGames s (snd (createRoom sid n rnd d s))"
proof (cases "addPlayer sid n d (newGameRoom (generateRoomCode rnd) True)")
  case (Inl e)
  then show ?thesis by (simp add: createRoom_def sameGames_refl)
next
  case (Inr pr)
  obtain p room' where pr: "pr = (p, room')" by (cases pr)
  from Inr pr have "keepsGame (newGameRoom (generateRoomCode rnd) True) room'"
    using keepsGame_addPlayer by blast
  then have n: "gameState room' = None" by (simp add: keepsGame_def newGameRoom_def)
  show ?thesis
    using Inr pr n
    by (auto simp: createRoom_def sameGames_def Let_def nth_append)
qed

lemma sameGames_joinRoom: "sameGames s (snd (joinRoom sid c n d s))"
proof (cases "lookupRoom s (toUpperCase c)")
  case None
  then show ?thesis by (simp add: joinRoom_def sameGames_refl)
next
  case (Some ar)
  obtain a room where ar: "ar = (a, room)" by (cases ar)
  from Some ar have h: "a < length (heap s)" "room = heap s ! a" using lookupRoom_heap by auto
  show ?thesis
  proof (cases "addPlayer sid n d room")
    case (Inl e)
    then show ?thesis using Some ar by (simp add: joinRoom_def sameGames_refl)
  next
    case (Inr pr)
    obtain p room' where pr: "pr = (p, room')" by (cases pr)
    from Inr pr have k: "keepsGame (heap s ! a) room'" using keepsGame_addPlayer h by blast
    show ?thesis
    proof (cases "playerCount room \<ge> 16 \<or> gameStarted room")
      case True
      then show ?thesis using Some ar by (auto simp: joinRoom_def sameGames_refl)
    next
      case False
      show ?thesis
        using Some ar Inr pr False sameGames_joined[OF h(1) k]
        by (simp add: joinRoom_def Let_def)
    qed
  qed
qed

lemma sameGames_playerInput: "sameGames s (playerInput sid i s)"
proof (cases "routed s sid")
  case None
  then show ?thesis by (simp add: playerInput_def sameGames_refl)
next
  case (Some x)
  obtain c a room gs where x: "x = (c, a, room, gs)" by (cases x)
  from routed_D[OF Some[unfolded x]] have h: "a < length (heap s)" "room = heap s ! a"
    "gameState room = Some gs" by auto
  then have k: "keepsGame (heap s ! a) (withGameState (updatePlayerInput sid i gs) room)"
    using keepsGame_withGameState by simp
  show ?thesis
    by (rule sameGames_store[OF h(1) k]) (use Some x in \<open>simp_all add: playerInput_def\<close>)
qed

lemma sameGames_playerAction: "sameGames s (playerAction sid act s)"
proof (cases "routed s sid")
  case None
  then show ?thesis by (simp add: playerAction_def sameGames_refl)
next
  case (Some x)
  obtain c a room gs where x: "x = (c, a, room, gs)" by (cases x)
  obtain res gs' where ha: "handleAction (clock s) sid act gs = (res, gs')"
    by (cases "handleAction (clock s) sid act gs")
  from routed_D[OF Some[unfolded x]] have h: "a < length (heap s)" "room = heap s ! a"
    "gameState room = Some gs" by auto
  then have k: "keepsGame (heap s ! a) (withGameState gs' room)"
    using keepsGame_withGameState by simp
  show ?thesis
    by (rule sameGames_store[OF h(1) k])
       (use Some x ha in \<open>auto simp: playerAction_def Let_def split: option.splits\<close>)
qed

lemma sameGames_disconnect: "sameGames s (disconnect sid s)"
proof (cases "map_of (playerRooms s) sid")
  case None
  then show ?thesis by (simp add: disconnect_def sameGames_refl)
next
  case (Some c)
  note pc = Some
  show ?thesis
  proof (cases "lookupRoom s c")
    case None
    then show ?thesis using pc by (simp add: disconnect_def sameGames_def)
  next
    case (Some ar)
    obtain a room where ar: "ar = (a, room)" by (cases ar)
    from Some ar have h: "a < length (heap s)" "room = heap s ! a" using lookupRoom_heap by auto
    have k: "keepsGame (heap s ! a) (removePlayer sid room)"
      using keepsGame_removePlayer h by simp
    show ?thesis
    proof (cases "c = []")
      case True
      then show ?thesis using pc by (simp add: disconnect_def sameGames_refl)
    next
      case False
      show ?thesis
        by (rule sameGames_store[OF h(1) k])
           (use pc Some ar False in \<open>simp_all add: disconnect_def Let_def\<close>)
    qed
  qed
qed

lemma sameGames_handle: "sameGames s (handle e s)"
  by (cases e)
     (simp_all add: sameGames_quickMatch sameGames_createRoom sameGames_joinRoom
        sameGames_playerInput sameGames_playerAction sameGames_disconnect)

lemma wellFormed_clock [simp]: "wellFormed (s\<lparr>clock := tau\<rparr>) = wellFormed s"
  by (simp add: wellFormed_def running_def)

lemma wellFormed_handle: "wellFormed s \<Longrightarrow> wellFormed (handle e s)"
  using wellFormed_sameGames sameGames_handle by blast

lemma wellFormed_emit [simp]: "wellFormed (emit c e s) = wellFormed s"
  by (simp add: wellFormed_def running_def)

lemma wellFormed_initServer: "wellFormed initServer"
  by (simp add: wellFormed_def initServer_def)

lemma wellFormed_setTimeout: "roomOf cb = None \<Longrightarrow> wellFormed s \<Longrightarrow> wellFormed (setTimeout cb d s)"
  by (rule wellFormed_sameGames[where s=s]) (simp_all add: sameGames_def)

lemma wellFormed_id_inj:
  "wellFormed s \<Longrightarrow> t \<in> set (timers s) \<Longrightarrow> u \<in> set (timers s) \<Longrightarrow> t_id t = t_id u \<Longrightarrow> t = u"
  using wellFormed_distinct[of s] by (auto simp: distinct_map dest: inj_onD)

lemma wellFormed_endTimeout:
  "wellFormed s \<Longrightarrow> u \<in> set (timers s) \<Longrightarrow> endOf (t_cb u) = Some (a, g) \<Longrightarrow> t_repeat u = None"
  using wellFormed_interval[of s u] by (cases "t_repeat u") auto

lemma wellFormed_startGame:
  assumes w: "wellFormed s"
  shows "wellFormed (startGame c rnd s)"
proof (cases "lookupRoom s c")
  case None
  then show ?thesis using w by (simp add: startGame_def)
next
  case (Some ar)
  obtain a room where ar: "ar = (a, room)" by (cases ar)
  from Some ar have h: "a < length (heap s)" "room = heap s ! a" using lookupRoom_heap by auto
  show ?thesis
  proof (cases "gameStarted room")
    case True
    then show ?thesis using w Some ar by (simp add: startGame_def)
  next
    case False
    define n where "n = nextTimer s"
    define gl where "gl = \<lparr>t_id = n, t_due = clock s + 1000 div 30,
                           t_repeat = Some (1000 div 30), t_cb = GameLoopCB c a\<rparr>"
    define r1 where "r1 = \<lparr>t_id = Suc n, t_due = clock s + 120000, t_repeat = None,
                           t_cb = RoundEndCB c a Build 180\<rparr>"
    define r2 where "r2 = \<lparr>t_id = Suc (Suc n), t_due = clock s + 303000, t_repeat = None,
                           t_cb = RoundEndCB c a Battle 150\<rparr>"
    define ge where "ge = \<lparr>t_id = Suc (Suc (Suc n)), t_due = clock s + 456000, t_repeat = None,
                           t_cb = GameEndCB c a n\<rparr>"
    define s' where "s' = startGame c rnd s"
    have tm: "timers s' = timers s @ [gl, r1, r2, ge]"
      and nt: "nextTimer s' = Suc (Suc (Suc (Suc n)))"
      and hp: "heap s' = (heap s)[a := startGameRoom rnd room]"
      using Some ar False
      by (simp_all add: s'_def startGame_def Let_def gl_def r1_def r2_def ge_def n_def)
    have st: "gameStarted (startGameRoom rnd room)" "gameState (startGameRoom rnd room) \<noteq> None"
      using False by (simp_all add: startGameRoom_def Let_def)
    have idle: "\<not> running s a"
    proof
      assume "running s a"
      then have "gameState (heap s ! a) \<noteq> None" by (simp add: running_def)
      from wellFormed_started[OF w h(1) this] False h(2) show False by simp
    qed
    have noref: "roomOf (t_cb t) \<noteq> Some a" if "t \<in> set (timers s)" for t
      using wellFormed_running[OF w that, of a] idle by auto
    have run': "running s' b" if "running s b" for b
      using that st by (cases "b = a") (simp_all add: running_def hp)
    have runa: "running s' a" using h st by (simp add: running_def hp)
    have mem: "t \<in> set (timers s') \<longleftrightarrow> t \<in> set (timers s) \<or> t = gl \<or> t = r1 \<or> t = r2 \<or> t = ge"
      for t by (auto simp: tm)
    have old: "t_id t < n" if "t \<in> set (timers s)" for t
      using wellFormed_fresh[OF w that] by (simp add: n_def)
    have flds [simp]: "t_cb gl = GameLoopCB c a" "t_cb r1 = RoundEndCB c a Build 180"
      "t_cb r2 = RoundEndCB c a Battle 150" "t_cb ge = GameEndCB c a n"
      "t_id gl = n" "t_id r1 = Suc n" "t_id r2 = Suc (Suc n)" "t_id ge = Suc (Suc (Suc n))"
      "t_repeat gl = Some (1000 div 30)" "t_repeat r1 = None" "t_repeat r2 = None"
      "t_repeat ge = None" "t_due r1 = clock s + 120000" "t_due r2 = clock s + 303000"
      "t_due ge = clock s + 456000"
      by (simp_all add: gl_def r1_def r2_def ge_def)
    have "wellFormed s'"
    proof (rule wellFormedI)
      fix b assume "b < length (heap s')" "gameState (heap s' ! b) \<noteq> None"
      then show "gameStarted (heap s' ! b)"
        using wellFormed_started[OF w, of b] st by (cases "b = a") (simp_all add: hp)
    next
      fix t b assume "t \<in> set (timers s')" "roomOf (t_cb t) = Some b"
      then show "running s' b"
        using wellFormed_running[OF w, of t b] run' runa by (auto simp: mem)
    next
      fix t c' b m dur assume t: "t \<in> set (timers s')" "t_cb t = RoundEndCB c' b m dur"
      from t(1) consider "t \<in> set (timers s)" | "t = gl" | "t = r1" | "t = r2" | "t = ge"
        by (auto simp: mem)
      then show "\<exists>u \<in> set (timers s'). \<exists>g. endOf (t_cb u) = Some (b, g) \<and> t_due t < t_due u"
      proof cases
        case 1
        from wellFormed_roundEnd[OF w 1 t(2)] show ?thesis by (auto simp: mem)
      next
        case 2
        with t(2) show ?thesis by simp
      next
        case 3
        with t(2) have "b = a" by simp
        with 3 show ?thesis by (intro bexI[of _ ge]) (simp_all add: mem)
      next
        case 4
        with t(2) have "b = a" by simp
        with 4 show ?thesis by (intro bexI[of _ ge]) (simp_all add: mem)
      next
        case 5
        with t(2) show ?thesis by simp
      qed
    next
      fix t c' b assume t: "t \<in> set (timers s')" "t_cb t = GameLoopCB c' b"
      from t(1) consider "t \<in> set (timers s)" | "t = gl" | "t = r1" | "t = r2" | "t = ge"
        by (auto simp: mem)
      then show "t_repeat t \<noteq> None \<and> (\<exists>u \<in> set (timers s'). endOf (t_cb u) = Some (b, t_id t))"
      proof cases
        case 1
        from wellFormed_gameLoop[OF w 1 t(2)] show ?thesis by (auto simp: mem)
      next
        case 2
        with t(2) have "b = a" by simp
        with 2 show ?thesis by (simp add: mem bexI[of _ ge])
      qed (use t(2) in simp_all)
    next
      fix u v b g g'
      assume uv: "u \<in> set (timers s')" "v \<in> set (timers s')"
        and e: "endOf (t_cb u) = Some (b, g)" "endOf (t_cb v) = Some (b, g')"
      have cases: "x \<in> set (timers s) \<and> b \<noteq> a \<or> x = ge \<and> b = a"
        if "x \<in> set (timers s')" "endOf (t_cb x) = Some (b, k)" for x k
      proof -
        from that(1) consider "x \<in> set (timers s)" | "x = gl" | "x = r1" | "x = r2" | "x = ge"
          by (auto simp: mem)
        then show ?thesis
        proof cases
          case 1
          from endOf_Some[OF that(2)] noref[OF 1] have "b \<noteq> a" by auto
          with 1 show ?thesis by simp
        qed (use that(2) in simp_all)
      qed
      from cases[OF uv(1) e(1)] cases[OF uv(2) e(2)] wellFormed_oneEnd[OF w _ _ e]
      show "u = v" by auto
    next
      fix t assume "t \<in> set (timers s')" "t_repeat t \<noteq> None"
      then show "\<exists>c a. t_cb t = GameLoopCB c a"
        using wellFormed_interval[OF w, of t] by (auto simp: mem)
    next
      have "n \<notin> t_id ` set (timers s)" "Suc n \<notin> t_id ` set (timers s)"
        "Suc (Suc n) \<notin> t_id ` set (timers s)" "Suc (Suc (Suc n)) \<notin> t_id ` set (timers s)"
        using old by fastforce+
      then show "distinct (map t_id (timers s'))"
        using wellFormed_distinct[OF w] by (simp add: tm)
    next
      fix t assume "t \<in> set (timers s')"
      then show "t_id t < nextTimer s'"
        using old[of t] by (auto simp: mem nt)
    qed
    then show ?thesis by (simp add: s'_def)
  qed
qed

lemma wellFormed_clearInterval:
  assumes w: "wellFormed s"
  shows "wellFormed (clearInterval h s)"
proof -
  define s' where "s' = clearInterval h s"
  have mem: "t \<in> set (timers s') \<longleftrightarrow> t \<in> set (timers s) \<and> \<not> (t_id t = h \<and> t_repeat t \<noteq> None)"
    for t by (auto simp: s'_def)
  have hp: "heap s' = heap s" "nextTimer s' = nextTimer s" by (simp_all add: s'_def)
  have stays: "u \<in> set (timers s')" if "u \<in> set (timers s)" "endOf (t_cb u) = Some (a, g)" for u a g
    using that wellFormed_endTimeout[OF w that] by (simp add: mem)
  have "wellFormed s'"
  proof (rule wellFormedI)
    fix a assume "a < length (heap s')" "gameState (heap s' ! a) \<noteq> None"
    then show "gameStarted (heap s' ! a)" using wellFormed_started[OF w, of a] by (simp add: hp)
  next
    fix t a assume "t \<in> set (timers s')" "roomOf (t_cb t) = Some a"
    then show "running s' a" using wellFormed_running[OF w, of t a] by (simp add: mem running_def hp)
  next
    fix t c a m dur assume t: "t \<in> set (timers s')" "t_cb t = RoundEndCB c a m dur"
    then have "t \<in> set (timers s)" by (simp add: mem)
    from wellFormed_roundEnd[OF w this t(2)] stays
    show "\<exists>u \<in> set (timers s'). \<exists>g. endOf (t_cb u) = Some (a, g) \<and> t_due t < t_due u"
      by blast
  next
    fix t c a assume t: "t \<in> set (timers s')" "t_cb t = GameLoopCB c a"
    then have "t \<in> set (timers s)" by (simp add: mem)
    from wellFormed_gameLoop[OF w this t(2)] stays
    show "t_repeat t \<noteq> None \<and> (\<exists>u \<in> set (timers s'). endOf (t_cb u) = Some (a, t_id t))"
      by blast
  next
    fix u v a g g'
    assume "u \<in> set (timers s')" "v \<in> set (timers s')"
      and e: "endOf (t_cb u) = Some (a, g)" "endOf (t_cb v) = Some (a, g')"
    then have "u \<in> set (timers s)" "v \<in> set (timers s)" by (simp_all add: mem)
    from wellFormed_oneEnd[OF w this e] show "u = v" .
  next
    fix t assume "t \<in> set (timers s')" "t_repeat t \<noteq> None"
    then show "\<exists>c a. t_cb t = GameLoopCB c a" using wellFormed_interval[OF w, of t] by (simp add: mem)
  next
    show "distinct (map t_id (timers s'))"
      using wellFormed_distinct[OF w] by (simp add: s'_def distinct_map_filter)
  next
    fix t assume "t \<in> set (timers s')"
    then show "t_id t < nextTimer s'" using wellFormed_fresh[OF w, of t] by (simp add: mem hp)
  qed
  then show ?thesis by (simp add: s'_def)
qed

lemma distinct_map_remove1: "distinct (map f xs) \<Longrightarrow> distinct (map f (remove1 x xs))"
proof (induction xs)
  case Nil
  then show ?case by simp
next
  case (Cons y ys)
  have "set (remove1 x ys) \<subseteq> set ys" by (rule set_remove1_subset)
  with Cons show ?case by auto
qed

lemma wellFormed_rearm:
  assumes w: "wellFormed s" and t: "t \<in> set (timers s)" and e: "endOf (t_cb t) = None"
  shows "wellFormed (s\<lparr>clock := d, timers := rearm t (timers s)\<rparr>)"
proof -
  define s' where "s' = s\<lparr>clock := d, timers := rearm t (timers s)\<rparr>"
  have hp: "heap s' = heap s" "nextTimer s' = nextTimer s" by (simp_all add: s'_def)
  have run: "running s' a = running s a" for a by (simp add: running_def hp)
  have "wellFormed s'"
  proof (cases "t_repeat t")
    case None
    have dt: "distinct (timers s)" using wellFormed_distinct[OF w] by (simp add: distinct_map)
    have tm: "timers s' = remove1 t (timers s)" by (simp add: s'_def rearm_def None)
    have mem: "x \<in> set (timers s') \<longleftrightarrow> x \<in> set (timers s) \<and> x \<noteq> t" for x
      using dt by (auto simp: tm)
    have stays: "u \<in> set (timers s')" if "u \<in> set (timers s)" "endOf (t_cb u) = Some (a, g)"
      for u a g using that e by (auto simp: mem)
    show ?thesis
    proof (rule wellFormedI)
      fix a assume "a < length (heap s')" "gameState (heap s' ! a) \<noteq> None"
      then show "gameStarted (heap s' ! a)" using wellFormed_started[OF w, of a] by (simp add: hp)
    next
      fix x a assume "x \<in> set (timers s')" "roomOf (t_cb x) = Some a"
      then show "running s' a" using wellFormed_running[OF w, of x a] by (simp add: mem run)
    next
      fix x c a m dur assume x: "x \<in> set (timers s')" "t_cb x = RoundEndCB c a m dur"
      then have "x \<in> set (timers s)" by (simp add: mem)
      from wellFormed_roundEnd[OF w this x(2)] stays
      show "\<exists>u \<in> set (timers s'). \<exists>g. endOf (t_cb u) = Some (a, g) \<and> t_due x < t_due u"
        by blast
    next
      fix x c a assume x: "x \<in> set (timers s')" "t_cb x = GameLoopCB c a"
      then have "x \<in> set (timers s)" by (simp add: mem)
      from wellFormed_gameLoop[OF w this x(2)] stays
      show "t_repeat x \<noteq> None \<and> (\<exists>u \<in> set (timers s'). endOf (t_cb u) = Some (a, t_id x))"
        by blast
    next
      fix u v a g g'
      assume "u \<in> set (timers s')" "v \<in> set (timers s')"
        and e: "endOf (t_cb u) = Some (a, g)" "endOf (t_cb v) = Some (a, g')"
      then have "u \<in> set (timers s)" "v \<in> set (timers s)" by (simp_all add: mem)
      from wellFormed_oneEnd[OF w this e] show "u = v" .
    next
      fix x assume "x \<in> set (timers s')" "t_repeat x \<noteq> None"
      then show "\<exists>c a. t_cb x = GameLoopCB c a" using wellFormed_interval[OF w, of x] by (simp add: mem)
    next
      show "distinct (map t_id (timers s'))"
        using wellFormed_distinct[OF w] by (simp add: tm distinct_map_remove1)
    next
      fix x assume "x \<in> set (timers s')"
      then show "t_id x < nextTimer s'" using wellFormed_fresh[OF w, of x] by (simp add: mem hp)
    qed
  next
    case (Some p)
    define f where "f = (\<lambda>u. if u = t then u\<lparr>t_due := t_due t + p\<rparr> else u)"
    have tm: "timers s' = map f (timers s)" by (simp add: s'_def rearm_def Some f_def)
    have f: "t_cb (f u) = t_cb u" "t_id (f u) = t_id u" "t_repeat (f u) = t_repeat u" for u
      by (simp_all add: f_def)
    have fx: "f u = u" if "t_repeat u = None" for u using that Some by (auto simp: f_def)
    have mem: "x \<in> set (timers s') \<longleftrightarrow> (\<exists>u \<in> set (timers s). x = f u)" for x
      by (auto simp: tm)
    have stays: "u \<in> set (timers s')" if "u \<in> set (timers s)" "endOf (t_cb u) = Some (a, g)"
      for u a g
    proof -
      from wellFormed_endTimeout[OF w that] have "f u = u" by (rule fx)
      then have "u = f u" by simp
      with that(1) show ?thesis unfolding mem by (rule bexI[rotated])
    qed
    show ?thesis
    proof (rule wellFormedI)
      fix a assume "a < length (heap s')" "gameState (heap s' ! a) \<noteq> None"
      then show "gameStarted (heap s' ! a)" using wellFormed_started[OF w, of a] by (simp add: hp)
    next
      fix x a assume "x \<in> set (timers s')" "roomOf (t_cb x) = Some a"
      then show "running s' a" using wellFormed_running[OF w] by (auto simp: mem run f)
    next
      fix x c a m dur assume x: "x \<in> set (timers s')" "t_cb x = RoundEndCB c a m dur"
      then obtain u where u: "u \<in> set (timers s)" "x = f u" by (auto simp: mem)
      have "t_repeat u = None"
        using wellFormed_interval[OF w u(1)] x(2) u(2) by (cases "t_repeat u") (auto simp: f)
      then have "x = u" using u(2) fx by simp
      with u(1) have xs: "x \<in> set (timers s)" by simp
      from wellFormed_roundEnd[OF w xs x(2)] obtain v k where
        v: "v \<in> set (timers s)" "endOf (t_cb v) = Some (a, k)" "t_due x < t_due v"
        by blast
      from stays[OF v(1,2)] v(2,3)
      show "\<exists>u \<in> set (timers s'). \<exists>g. endOf (t_cb u) = Some (a, g) \<and> t_due x < t_due u"
        by blast
    next
      fix x c a assume x: "x \<in> set (timers s')" "t_cb x = GameLoopCB c a"
      then obtain u where u: "u \<in> set (timers s)" "x = f u" by (auto simp: mem)
      from wellFormed_gameLoop[OF w u(1), of c a] x(2) u(2) stays
      show "t_repeat x \<noteq> None \<and> (\<exists>u \<in> set (timers s'). endOf (t_cb u) = Some (a, t_id x))"
        by (auto simp: f)
    next
      fix u v a g g'
      assume uv: "u \<in> set (timers s')" "v \<in> set (timers s')"
        and e: "endOf (t_cb u) = Some (a, g)" "endOf (t_cb v) = Some (a, g')"
      from uv obtain u0 v0 where o: "u0 \<in> set (timers s)" "u = f u0" "v0 \<in> set (timers s)" "v = f v0"
        by (auto simp: mem)
      with e have "endOf (t_cb u0) = Some (a, g)" "endOf (t_cb v0) = Some (a, g')"
        by (simp_all add: f)
      from wellFormed_oneEnd[OF w o(1,3) this] o show "u = v" by simp
    next
      fix x assume "x \<in> set (timers s')" "t_repeat x \<noteq> None"
      then show "\<exists>c a. t_cb x = GameLoopCB c a" using wellFormed_interval[OF w] by (auto simp: mem f)
    next
      have "t_id \<circ> f = t_id" by (rule ext) (simp add: f)
      then show "distinct (map t_id (timers s'))" using wellFormed_distinct[OF w] by (simp add: tm)
    next
      fix x assume "x \<in> set (timers s')"
      then show "t_id x < nextTimer s'" using wellFormed_fresh[OF w] by (auto simp: mem hp f)
    qed
  qed
  then show ?thesis by (simp add: s'_def)
qed

lemma wellFormed_gameEnd:
  assumes w: "wellFormed s" and t: "t \<in> set (timers s)" and cb: "t_cb t = GameEndCB c a g"
    and first: "\<forall>u \<in> set (timers s). t_due t \<le> t_due u"
    and s': "timers s' = filter (\<lambda>x. \<not> (t_id x = g \<and> t_repeat x \<noteq> None)) (remove1 t (timers s))"
      "heap s' = (heap s)[a := endGame (heap s ! a)]" "nextTimer s' = nextTimer s"
  shows "wellFormed s'"
proof -
  have dt: "distinct (timers s)" using wellFormed_distinct[OF w] by (simp add: distinct_map)
  have et: "endOf (t_cb t) = Some (a, g)" by (simp add: cb)
  have mem: "x \<in> set (timers s') \<longleftrightarrow>
      x \<in> set (timers s) \<and> x \<noteq> t \<and> \<not> (t_id x = g \<and> t_repeat x \<noteq> None)" for x
    using dt by (auto simp: s'(1))
  have key: "b \<noteq> a" if x: "x \<in> set (timers s')" "roomOf (t_cb x) = Some b" for x b
  proof
    assume ba: "b = a"
    from x(1) have xs: "x \<in> set (timers s)" "x \<noteq> t" "\<not> (t_id x = g \<and> t_repeat x \<noteq> None)"
      by (simp_all add: mem)
    show False
    proof (cases "t_cb x")
      case (GameLoopCB c' b')
      with x(2) ba have c: "t_cb x = GameLoopCB c' a" by simp
      from wellFormed_gameLoop[OF w xs(1) c] obtain u where
        u: "t_repeat x \<noteq> None" "u \<in> set (timers s)" "endOf (t_cb u) = Some (a, t_id x)"
        by blast
      from wellFormed_oneEnd[OF w u(2) t u(3) et] have "u = t" .
      with u(3) et have "t_id x = g" by simp
      with u(1) xs(3) show False by simp
    next
      case (RoundEndCB c' b' m dur)
      with x(2) ba have c: "t_cb x = RoundEndCB c' a m dur" by simp
      from wellFormed_roundEnd[OF w xs(1) c] obtain u k where
        u: "u \<in> set (timers s)" "endOf (t_cb u) = Some (a, k)" "t_due x < t_due u"
        by blast
      from wellFormed_oneEnd[OF w u(1) t u(2) et] have "u = t" .
      with u(3) first xs(1) show False by auto
    next
      case (GameEndCB c' b' k)
      with x(2) ba have "endOf (t_cb x) = Some (a, k)" by simp
      from wellFormed_oneEnd[OF w xs(1) t this et] xs(2) show False by simp
    qed (use x(2) in simp_all)
  qed
  have ra: "running s a" using wellFormed_running[OF w t, of a] by (simp add: cb)
  have run: "running s' b" if "running s b" "b \<noteq> a" for b
    using that by (simp add: running_def s'(2))
  have stays: "u \<in> set (timers s')" if "u \<in> set (timers s)" "endOf (t_cb u) = Some (b, k)" "b \<noteq> a"
    for u b k
    using that wellFormed_endTimeout[OF w that(1,2)] et by (auto simp: mem)
  show ?thesis
  proof (rule wellFormedI)
    fix b assume "b < length (heap s')" "gameState (heap s' ! b) \<noteq> None"
    then show "gameStarted (heap s' ! b)"
      using wellFormed_started[OF w, of b] by (cases "b = a") (simp_all add: s'(2) endGame_def)
  next
    fix x b assume x: "x \<in> set (timers s')" "roomOf (t_cb x) = Some b"
    from key[OF x] wellFormed_running[OF w _ x(2)] x(1) run show "running s' b" by (simp add: mem)
  next
    fix x c' b m dur assume x: "x \<in> set (timers s')" "t_cb x = RoundEndCB c' b m dur"
    then have xs: "x \<in> set (timers s)" and ba: "b \<noteq> a" using key[of x b] by (simp_all add: mem)
    from wellFormed_roundEnd[OF w xs x(2)] stays ba
    show "\<exists>u \<in> set (timers s'). \<exists>g. endOf (t_cb u) = Some (b, g) \<and> t_due x < t_due u"
      by blast
  next
    fix x c' b assume x: "x \<in> set (timers s')" "t_cb x = GameLoopCB c' b"
    then have xs: "x \<in> set (timers s)" and ba: "b \<noteq> a" using key[of x b] by (simp_all add: mem)
    from wellFormed_gameLoop[OF w xs x(2)] stays ba
    show "t_repeat x \<noteq> None \<and> (\<exists>u \<in> set (timers s'). endOf (t_cb u) = Some (b, t_id x))"
      by blast
  next
    fix u v b k k'
    assume "u \<in> set (timers s')" "v \<in> set (timers s')"
      and e: "endOf (t_cb u) = Some (b, k)" "endOf (t_cb v) = Some (b, k')"
    then have "u \<in> set (timers s)" "v \<in> set (timers s)" by (simp_all add: mem)
    from wellFormed_oneEnd[OF w this e] show "u = v" .
  next
    fix x assume "x \<in> set (timers s')" "t_repeat x \<noteq> None"
    then show "\<exists>c a. t_cb x = GameLoopCB c a" using wellFormed_interval[OF w, of x] by (simp add: mem)
  next
    show "distinct (map t_id (timers s'))"
      using wellFormed_distinct[OF w] by (simp add: s'(1) distinct_map_filter distinct_map_remove1)
  next
    fix x assume "x \<in> set (timers s')"
    then show "t_id x < nextTimer s'" using wellFormed_fresh[OF w, of x] by (simp add: mem s'(3))
  qed
qed

lemma heldState_running: "running s a \<Longrightarrow> \<exists>gs. heldState s a = Some gs"
  by (auto simp: running_def heldState_def)

lemma heldState_timers [simp]: "heldState (s\<lparr>clock := d, timers := ts\<rparr>) a = heldState s a"
  by (simp add: heldState_def)

lemma wellFormed_fire:
  assumes w: "wellFormed s" and f: "fire rnd s = Some s'"
  shows "wellFormed s'"
proof -
  from f obtain t where e: "earliest (timers s) = Some t"
    and r: "runCallback t rnd (s\<lparr>clock := t_due t, timers := rearm t (timers s)\<rparr>) = Some s'"
    by (auto simp: fire_def split: option.splits)
  from earliest_Some[OF e] have t: "t \<in> set (timers s)"
    and first: "\<forall>u \<in> set (timers s). t_due t \<le> t_due u" by simp_all
  define s0 where "s0 = s\<lparr>clock := t_due t, timers := rearm t (timers s)\<rparr>"
  show ?thesis
  proof (cases "t_cb t")
    case (StartGameCB c)
    then have "wellFormed s0" unfolding s0_def using wellFormed_rearm[OF w t] by simp
    then show ?thesis using r StartGameCB wellFormed_startGame
      by (auto simp: runCallback_def s0_def)
  next
    case (GameLoopCB c a)
    then have "wellFormed s0" unfolding s0_def using wellFormed_rearm[OF w t] by simp
    then show ?thesis using r GameLoopCB wellFormed_clearInterval[of s0 "t_id t"]
      by (auto simp: runCallback_def s0_def split: if_splits option.splits)
  next
    case (RoundEndCB c a m dur)
    then have "wellFormed s0" unfolding s0_def using wellFormed_rearm[OF w t] by simp
    then have "wellFormed (setTimeout (RoundStartCB c m dur) 3000 (emit c ev s0))" for ev
      by (intro wellFormed_setTimeout) simp_all
    then show ?thesis using r RoundEndCB
      by (auto simp: runCallback_def s0_def split: option.splits)
  next
    case (RoundStartCB c m dur)
    then have "wellFormed s0" unfolding s0_def using wellFormed_rearm[OF w t] by simp
    then show ?thesis using r RoundStartCB
      by (auto simp: runCallback_def s0_def)
  next
    case (GameEndCB c a g)
    have rp: "t_repeat t = None" using wellFormed_endTimeout[OF w t, of a g] GameEndCB by simp
    have a: "a < length (heap s)" using wellFormed_running[OF w t, of a] GameEndCB by (simp add: running_def)
    show ?thesis
      by (rule wellFormed_gameEnd[OF w t GameEndCB first])
         (use r GameEndCB rp a in \<open>auto simp: runCallback_def rearm_def Let_def split: option.splits\<close>)
  qed
qed

lemma earliest_nonempty: "ts \<noteq> [] \<Longrightarrow> \<exists>t. earliest ts = Some t"
  by (cases ts) (simp_all split: option.splits)

lemma fire_total:
  assumes w: "wellFormed s" and ne: "timers s \<noteq> []"
  shows "\<exists>s'. fire rnd s = Some s'"
proof -
  from earliest_nonempty[OF ne] obtain t where e: "earliest (timers s) = Some t" ..
  from earliest_Some[OF e] have t: "t \<in> set (timers s)" by simp
  have h: "\<exists>gs. heldState s a = Some gs" if "roomOf (t_cb t) = Some a" for a
    using wellFormed_running[OF w t that] by (rule heldState_running)
  show ?thesis
  proof (cases "t_cb t")
    case (GameLoopCB c a)
    with h[of a] show ?thesis by (auto simp: fire_def e runCallback_def)
  next
    case (RoundEndCB c a m dur)
    with h[of a] show ?thesis by (auto simp: fire_def e runCallback_def)
  next
    case (GameEndCB c a g)
    with h[of a] show ?thesis by (auto simp: fire_def e runCallback_def Let_def)
  qed (simp_all add: fire_def e runCallback_def)
qed

lemma wellFormed_exec: "exec allowed s s' \<Longrightarrow> wellFormed s \<Longrightarrow> wellFormed s'"
proof (induction rule: exec.induct)
  case (exec_refl s)
  then show ?case .
next
  case (exec_fire s s' rnd s'')
  then show ?case using wellFormed_fire by blast
next
  case (exec_inbound s s' e tau)
  then have "wellFormed (s'\<lparr>clock := tau\<rparr>)" by simp
  then show ?case by (rule wellFormed_handle)
qed

text \<open>
  The closures of \<open>startGame\<close> read \<open>room.gameState\<close> without a test, and \<open>endGame\<close> sets it
  to \<open>null\<close>.  In every execution from the empty server the timer list is well formed, so
  the closure of the timer that is due first finds the simulation of its room: a pending
  timer can always fire.
\<close>

theorem closures_never_throw:
  assumes "exec allowed initServer s" and "timers s \<noteq> []"
  shows "\<exists>s'. fire rnd s = Some s'"
  using fire_total[OF wellFormed_exec[OF assms(1) wellFormed_initServer] assms(2)] .

text \<open>
  After \<open>startGame\<close> on a room that has not started, in every execution that follows either
  \<open>gameEnd\<close> has been emitted at 456000 ms after the start, or a timer is pending and can
  fire: the server is never stuck before the end of the game.
\<close>

theorem timeline_not_stuck:
  assumes "wellFormed s" and "lookupRoom s c = Some (a, room)" and "\<not> gameStarted room"
    and "exec allowed (startGame c rnd s) s'"
  shows "(\<exists>f. emitted s' (clock s + 456000) c (GameEnd f)) \<or> (\<exists>s''. fire rnd' s' = Some s'')"
proof -
  note sch = startGame_schedule[OF assms(2,3), of rnd]
  from sch(4) obtain g where "pending (startGame c rnd s) (clock s + 456000) (GameEndCB c a g)" ..
  then have "endInv (clock s + 456000) c a g s'"
    by (intro endInv_exec[OF assms(4)]) (simp add: endInv_def)
  then consider "pending s' (clock s + 456000) (GameEndCB c a g)"
    | "\<exists>f. emitted s' (clock s + 456000) c (GameEnd f)"
    by (auto simp: endInv_def)
  then show ?thesis
  proof cases
    case 1
    then have ne: "timers s' \<noteq> []" by (auto simp: pending_def)
    have "wellFormed s'"
      by (rule wellFormed_exec[OF assms(4)]) (rule wellFormed_startGame[OF assms(1)])
    from fire_total[OF this ne] show ?thesis by blast
  next
    case 2
    then show ?thesis by blast
  qed
qed

section \<open>Executions: the capacity of the rooms\<close>

lemma capRoom_new [simp]: "capRoom (newGameRoom c priv)"
  by (simp add: capRoom_def newGameRoom_def playerCount_def)

lemma capRoom_addPlayer: "addPlayer i n d r = Inr (p, r') \<Longrightarrow> capRoom r \<Longrightarrow> capRoom r'"
  by (auto simp: capRoom_def dest!: addPlayer_Inr)

lemma capRoom_removePlayer: "capRoom r \<Longrightarrow> capRoom (removePlayer i r)"
  using length_delete_le[of i "roomPlayers r"]
  by (simp add: capRoom_def removePlayer_def playerCount_def)

lemma capRoom_startGameRoom: "capRoom r \<Longrightarrow> capRoom (startGameRoom rnd r)"
  by (simp add: capRoom_def startGameRoom_def newGameState_def initializePositions_def
        playerCount_def Let_def)

lemma capRoom_endGame: "capRoom r \<Longrightarrow> capRoom (endGame r)"
  by (simp add: capRoom_def endGame_def playerCount_def)

lemma capRoom_withGameState: "capRoom r \<Longrightarrow> capRoom (withGameState gs r)"
  by (simp add: capRoom_def withGameState_def shareInto_def playerCount_def)

lemma capOnly_heap: "capOnly s \<Longrightarrow> a < length (heap s) \<Longrightarrow> capRoom (heap s ! a)"
  by (simp add: capOnly_def list_all_length)

lemma capOnly_quickMatch: "capOnly s \<Longrightarrow> capOnly (snd (quickMatch sid n rnd d s))"
proof -
  assume r: "capOnly s"
  obtain c s1 where f: "findAvailableRoom rnd s = (c, s1)" by (cases "findAvailableRoom rnd s")
  then have s1: "capOnly s1"
    using r by (auto simp: findAvailableRoom_def capOnly_def Let_def split: option.splits)
  show ?thesis
  proof (cases "lookupRoom s1 c")
    case None
    then show ?thesis using s1 f by (simp add: quickMatch_def)
  next
    case (Some ar)
    obtain a room where ar: "ar = (a, room)" by (cases ar)
    from Some ar have h: "a < length (heap s1)" "room = heap s1 ! a" using lookupRoom_heap by auto
    then have rr: "capRoom room" using s1 capOnly_heap by simp
    show ?thesis
    proof (cases "addPlayer sid n d room")
      case (Inl e)
      then show ?thesis using s1 f Some ar by (simp add: quickMatch_def)
    next
      case (Inr pr)
      obtain p room' where pr: "pr = (p, room')" by (cases pr)
      from Inr pr rr have "capRoom room'" using capRoom_addPlayer by blast
      then show ?thesis
        using s1 f Some ar Inr pr
        by (simp add: quickMatch_def Let_def capOnly_def list_all_update)
    qed
  qed
qed

lemma capOnly_createRoom: "capOnly s \<Longrightarrow> capOnly (snd (createRoom sid n rnd d s))"
  by (auto simp: createRoom_def capOnly_def Let_def split: sum.splits
        dest: capRoom_addPlayer[OF _ capRoom_new])

lemma capOnly_joinRoom: "capOnly s \<Longrightarrow> capOnly (snd (joinRoom sid c n d s))"
proof -
  assume r: "capOnly s"
  show ?thesis
  proof (cases "lookupRoom s (toUpperCase c)")
    case None
    then show ?thesis using r by (simp add: joinRoom_def)
  next
    case (Some ar)
    obtain a room where ar: "ar = (a, room)" by (cases ar)
    from Some ar have h: "a < length (heap s)" "room = heap s ! a" using lookupRoom_heap by auto
    then have rr: "capRoom room" using r capOnly_heap by simp
    show ?thesis
    proof (cases "addPlayer sid n d room")
      case (Inl e)
      then show ?thesis using r Some ar by (simp add: joinRoom_def)
    next
      case (Inr pr)
      obtain p room' where pr: "pr = (p, room')" by (cases pr)
      from Inr pr rr have "capRoom room'" using capRoom_addPlayer by blast
      then show ?thesis
        using r Some ar Inr pr
        by (simp add: joinRoom_def Let_def capOnly_def list_all_update)
    qed
  qed
qed

lemma capOnly_playerInput: "capOnly s \<Longrightarrow> capOnly (playerInput sid i s)"
proof -
  assume r: "capOnly s"
  show ?thesis
  proof (cases "routed s sid")
    case None
    then show ?thesis using r by (simp add: playerInput_def)
  next
    case (Some x)
    obtain c a room gs where x: "x = (c, a, room, gs)" by (cases x)
    from routed_D[OF Some[unfolded x]] have "capRoom room"
      using capOnly_heap[OF r, of a] by auto
    then show ?thesis
      using r Some x
      by (simp add: playerInput_def capOnly_def list_all_update capRoom_withGameState)
  qed
qed

lemma capOnly_playerAction: "capOnly s \<Longrightarrow> capOnly (playerAction sid act s)"
proof -
  assume r: "capOnly s"
  show ?thesis
  proof (cases "routed s sid")
    case None
    then show ?thesis using r by (simp add: playerAction_def)
  next
    case (Some x)
    obtain c a room gs where x: "x = (c, a, room, gs)" by (cases x)
    obtain res gs' where h: "handleAction (clock s) sid act gs = (res, gs')"
      by (cases "handleAction (clock s) sid act gs")
    from routed_D[OF Some[unfolded x]] have "capRoom room"
      using capOnly_heap[OF r, of a] by auto
    then show ?thesis
      using r Some x h
      by (auto simp: playerAction_def capOnly_def list_all_update capRoom_withGameState
            Let_def split: option.splits)
  qed
qed

lemma capOnly_disconnect: "capOnly s \<Longrightarrow> capOnly (disconnect sid s)"
proof -
  assume r: "capOnly s"
  show ?thesis
  proof (cases "map_of (playerRooms s) sid")
    case None
    then show ?thesis using r by (simp add: disconnect_def)
  next
    case (Some c)
    show ?thesis
    proof (cases "lookupRoom s c")
      case None
      then show ?thesis using r Some by (simp add: disconnect_def capOnly_def)
    next
      case (Some ar)
      obtain a room where ar: "ar = (a, room)" by (cases ar)
      from Some ar have h: "a < length (heap s)" "room = heap s ! a" using lookupRoom_heap by auto
      then have "capRoom (removePlayer sid room)" using r capOnly_heap capRoom_removePlayer by simp
      then show ?thesis
        using r \<open>map_of (playerRooms s) sid = Some c\<close> Some ar
        by (simp add: disconnect_def Let_def capOnly_def list_all_update)
    qed
  qed
qed

lemma capOnly_handle: "capOnly s \<Longrightarrow> capOnly (handle e s)"
  by (cases e)
     (simp_all add: capOnly_quickMatch capOnly_createRoom capOnly_joinRoom
        capOnly_playerInput capOnly_playerAction capOnly_disconnect)

lemma capOnly_startGame: "capOnly s \<Longrightarrow> capOnly (startGame c rnd s)"
proof -
  assume r: "capOnly s"
  show ?thesis
  proof (cases "lookupRoom s c")
    case None
    then show ?thesis using r by (simp add: startGame_def)
  next
    case (Some ar)
    obtain a room where ar: "ar = (a, room)" by (cases ar)
    from Some ar have h: "a < length (heap s)" "room = heap s ! a" using lookupRoom_heap by auto
    then have "capRoom (startGameRoom rnd room)"
      using r capOnly_heap capRoom_startGameRoom by simp
    then show ?thesis
      using r Some ar
      by (simp add: startGame_def Let_def capOnly_def list_all_update)
  qed
qed

lemma capOnly_runCallback:
  assumes "capOnly s" "runCallback t rnd s = Some s'"
  shows "capOnly s'"
proof (cases "t_cb t")
  case (StartGameCB c)
  with assms show ?thesis by (auto simp: runCallback_def capOnly_startGame)
next
  case (GameLoopCB c a)
  with assms show ?thesis
    by (auto simp: runCallback_def capOnly_def split: if_splits option.splits)
next
  case (RoundEndCB c a m dur)
  with assms show ?thesis
    by (auto simp: runCallback_def capOnly_def split: option.splits)
next
  case (RoundStartCB c m dur)
  with assms show ?thesis
    by (auto simp: runCallback_def capOnly_def)
next
  case (GameEndCB c a g)
  with assms obtain gs where gs: "heldState s a = Some gs"
    and s': "s' = storeRoom a (endGame (heap s ! a))
                   (clearInterval g (emit c (GameEnd (getFinalScores gs)) s))"
    by (auto simp: runCallback_def Let_def split: option.splits)
  from gs have "a < length (heap s)" by (auto simp: heldState_def split: if_splits)
  then have "capRoom (endGame (heap s ! a))"
    using capOnly_heap[OF assms(1)] capRoom_endGame by simp
  then show ?thesis using assms(1) s' by (simp add: capOnly_def list_all_update)
qed

lemma capOnly_exec: "exec allowed s s' \<Longrightarrow> capOnly s \<Longrightarrow> capOnly s'"
proof (induction rule: exec.induct)
  case (exec_refl s)
  then show ?case .
next
  case (exec_fire s s' rnd s'')
  from fire_D[OF exec_fire.hyps(2)] obtain t where
    r: "runCallback t rnd (s'\<lparr>clock := t_due t, timers := rearm t (timers s')\<rparr>) = Some s''"
    by blast
  have "capOnly (s'\<lparr>clock := t_due t, timers := rearm t (timers s')\<rparr>)"
    using exec_fire.IH[OF exec_fire.prems] by (simp add: capOnly_def)
  then show ?case using capOnly_runCallback r by blast
next
  case (exec_inbound s s' e tau)
  then have "capOnly (s'\<lparr>clock := tau\<rparr>)" by (simp add: capOnly_def)
  then show ?case by (rule capOnly_handle)
qed

text \<open>
  C6.  A room made by the constructor has capacity 16.  \<open>addPlayer\<close> on a room with at most
  16 players either throws the capacity error, and then the room holds 16 and is left as
  it was, or returns a room that still holds at most 16; on a room that holds 16 it always
  throws.  Sixteen calls with distinct connection ids fill an empty room, and the
  seventeenth call throws.  The \<open>joinRoom\<close> handler answers a room of 16 with the capacity
  error and leaves the server unchanged.  In every execution of the server from its
  start, every room holds at most 16 players.
\<close>

theorem addPlayer_capacity:
  "(capRoom r \<longrightarrow>
      (case addPlayer ident username d r of
         Inl e \<Rightarrow> e = RoomFull \<and> playerCount r = 16
       | Inr (p, r') \<Rightarrow> playerCount r < 16 \<and> capRoom r')
      \<and> capRoom (addPlayers js r))
   \<and> (maxPlayers r = 16 \<and> playerCount r = 16 \<longrightarrow>
        addPlayer ident username d r = Inl RoomFull)
   \<and> (distinct (map fst js) \<and> length js = 16 \<longrightarrow>
        playerCount (addPlayers js (newGameRoom c priv)) = 16
        \<and> addPlayer ident username d (addPlayers js (newGameRoom c priv)) = Inl RoomFull)
   \<and> (lookupRoom s (toUpperCase c') = Some (a, room) \<and> playerCount room \<ge> 16 \<longrightarrow>
        joinRoom sid c' username d s = (AckError RoomFull, s))
   \<and> (exec allowed initServer s' \<longrightarrow> list_all capRoom (heap s'))"
proof (intro conjI impI)
  { assume cr: "capRoom r"
    then have m: "maxPlayers r = 16" and le: "playerCount r \<le> 16" by (simp_all add: capRoom_def)
    show "case addPlayer ident username d r of
          Inl e \<Rightarrow> e = RoomFull \<and> playerCount r = 16
        | Inr (p, r') \<Rightarrow> playerCount r < 16 \<and> capRoom r'"
      using m le by (auto simp: capRoom_def split: sum.splits dest!: addPlayer_Inr addPlayer_Inl)
    show "capRoom (addPlayers js r)"
      using addPlayers_bound[of r js] m le by (simp add: capRoom_def) }
  { assume "maxPlayers r = 16 \<and> playerCount r = 16"
    then show "addPlayer ident username d r = Inl RoomFull"
      by (simp add: addPlayer_full) }
  { assume dl: "distinct (map fst js) \<and> length js = 16"
    have n: "maxPlayers (newGameRoom c priv) = 16" "playerCount (newGameRoom c priv) = 0"
      "roomPlayers (newGameRoom c priv) = []"
      by (simp_all add: newGameRoom_def playerCount_def)
    have "playerCount (addPlayers js (newGameRoom c priv))
            = playerCount (newGameRoom c priv) + length js"
      by (rule addPlayers_count) (use dl n in simp_all)
    then show cnt: "playerCount (addPlayers js (newGameRoom c priv)) = 16" using dl n by simp
    have "maxPlayers (addPlayers js (newGameRoom c priv)) = 16"
      using addPlayers_bound[of "newGameRoom c priv" js] n by simp
    with cnt show "addPlayer ident username d (addPlayers js (newGameRoom c priv)) = Inl RoomFull"
      by (simp add: addPlayer_full) }
  { assume "lookupRoom s (toUpperCase c') = Some (a, room) \<and> playerCount room \<ge> 16"
    then show "joinRoom sid c' username d s = (AckError RoomFull, s)"
      by (simp add: joinRoom_def) }
  { assume "exec allowed initServer s'"
    moreover have "capOnly initServer" by (simp add: capOnly_def initServer_def)
    ultimately have "capOnly s'" by (rule capOnly_exec)
    then show "list_all capRoom (heap s')" by (simp add: capOnly_def) }
qed

theorem addPlayer_capacity_witness:
  "playerCount (addPlayers sixteen (newGameRoom ''ROOM01'' False)) = 16
   \<and> addPlayer ''p17'' ''late'' demoDraws (addPlayers sixteen (newGameRoom ''ROOM01'' False))
       = Inl RoomFull
   \<and> (case addPlayer ''p01'' ''first'' demoDraws (newGameRoom ''ROOM01'' False) of
         Inl e \<Rightarrow> False | Inr (p, r') \<Rightarrow> playerCount r' = 1)"
proof -
  have d: "distinct (map fst sixteen) \<and> length sixteen = 16" by (simp add: sixteen_def)
  have c: "capRoom (newGameRoom ''ROOM01'' False)" by simp
  from addPlayer_capacity[of "newGameRoom ''ROOM01'' False" "''p17''" "''late''" demoDraws
        sixteen "''ROOM01''" False]
  have "playerCount (addPlayers sixteen (newGameRoom ''ROOM01'' False)) = 16"
    "addPlayer ''p17'' ''late'' demoDraws (addPlayers sixteen (newGameRoom ''ROOM01'' False))
       = Inl RoomFull"
    using d by simp_all
  moreover have "case addPlayer ''p01'' ''first'' demoDraws (newGameRoom ''ROOM01'' False) of
         Inl e \<Rightarrow> False | Inr (p, r') \<Rightarrow> playerCount r' = 1"
    by (simp add: addPlayer_def newGameRoom_def playerCount_def Let_def)
  ultimately show ?thesis by simp
qed

section \<open>The round timeline\<close>

text \<open>
  C8.  \<open>startGame\<close> on a room of the directory that has not started emits the start of the
  race round at once.  In every execution that follows, whatever inbound events and
  other timers interleave, once the clock has passed 123000 ms after the start the event
  \<open>roundStart\<close> with mode build and duration 180 has been emitted at exactly 123000 ms
  after the start; likewise \<open>roundStart\<close> with mode battle and duration 150 at 306000 ms,
  and \<open>gameEnd\<close> at 456000 ms.  (Timers fire exactly when due in the model.)
\<close>

theorem round_timeline:
  assumes "lookupRoom s c = Some (a, room)" and "\<not> gameStarted room"
    and "exec allowed (startGame c rnd s) s'"
  shows "emitted s' (clock s) c (RoundStart Race 120)
    \<and> (clock s + 123000 < clock s' \<longrightarrow> emitted s' (clock s + 123000) c (RoundStart Build 180))
    \<and> (clock s + 306000 < clock s' \<longrightarrow> emitted s' (clock s + 306000) c (RoundStart Battle 150))
    \<and> (clock s + 456000 < clock s' \<longrightarrow> (\<exists>f. emitted s' (clock s + 456000) c (GameEnd f)))"
proof (intro conjI impI)
  note sch = startGame_schedule[OF assms(1,2), of rnd]
  show "emitted s' (clock s) c (RoundStart Race 120)"
    using emitted_exec[OF assms(3) sch(1)] .
  { assume lt: "clock s + 123000 < clock s'"
    have "roundInv (clock s + 120000) (clock s + 123000) c a Build 180 s'"
      by (rule roundInv_exec[OF assms(3)]) (simp_all add: roundInv_def sch)
    with lt show "emitted s' (clock s + 123000) c (RoundStart Build 180)"
      by (auto simp: roundInv_def pending_def) }
  { assume lt: "clock s + 306000 < clock s'"
    have "roundInv (clock s + 303000) (clock s + 306000) c a Battle 150 s'"
      by (rule roundInv_exec[OF assms(3)]) (simp_all add: roundInv_def sch)
    with lt show "emitted s' (clock s + 306000) c (RoundStart Battle 150)"
      by (auto simp: roundInv_def pending_def) }
  { assume lt: "clock s + 456000 < clock s'"
    from sch(4) obtain g where "pending (startGame c rnd s) (clock s + 456000) (GameEndCB c a g)" ..
    then have "endInv (clock s + 456000) c a g s'"
      by (intro endInv_exec[OF assms(3)]) (simp add: endInv_def)
    with lt show "\<exists>f. emitted s' (clock s + 456000) c (GameEnd f)"
      by (auto simp: endInv_def pending_def) }
qed

lemmas server_defs =
  quickMatch_def findAvailableRoom_def initServer_def lookupRoom_def newGameRoom_def
  addPlayer_def playerCount_def assignTeam_def teamCount_def Let_def storeRoom_def emit_def
  scheduleStart_def setTimeout_def getPlayers_def startGame_def startGameRoom_def
  newGameState_def initializePositions_def setInterval_def fire_def rearm_def runCallback_def
  heldState_def clearInterval_def disconnect_def removePlayer_def removePlayerGS_def
  endGame_def getState_def getScores_def getFinalScores_def

lemma demoPre_room:
  "lookupRoom demoPre ''AAAAAA'' = Some (0, heap demoPre ! 0)"
  "\<not> gameStarted (heap demoPre ! 0)" "clock demoPre = 3010"
  by (simp_all add: server_defs demoPre_def demoLobby_def zeros_code demoDraws_def)

lemma demo_run:
  "(case run demoAfter (startGame ''AAAAAA'' zeros demoPre) of
      None \<Rightarrow> False
    | Some s' \<Rightarrow> clock s' = 460000 \<and> timers s' = [] \<and> rooms s' = []
        \<and> map fst (outbox s') =
             [0, 10, 3010, 3043, 3050, 3060, 123010, 126010, 306010, 309010, 459010])"
  by (simp add: server_defs demoPre_def demoLobby_def zeros_code demoDraws_def
        demoAfter_def demoBefore_def demoRest_def)

theorem round_timeline_witness:
  "(case run demoAfter (startGame ''AAAAAA'' zeros demoPre) of
      None \<Rightarrow> False
    | Some s' \<Rightarrow>
        emitted s' 3010 ''AAAAAA'' (RoundStart Race 120)
        \<and> emitted s' 126010 ''AAAAAA'' (RoundStart Build 180)
        \<and> emitted s' 309010 ''AAAAAA'' (RoundStart Battle 150)
        \<and> (\<exists>f. emitted s' 459010 ''AAAAAA'' (GameEnd f)))"
proof -
  from demo_run obtain s' where r: "run demoAfter (startGame ''AAAAAA'' zeros demoPre) = Some s'"
    and c: "clock s' = 460000"
    by (auto split: option.splits)
  have "list_all (\<lambda>_. True) (inbounds demoAfter)" by (simp add: list_all_iff)
  from run_exec[OF r this] have e: "exec (\<lambda>_. True) (startGame ''AAAAAA'' zeros demoPre) s'" .
  from round_timeline[OF demoPre_room(1,2) e] c show ?thesis
    by (simp add: r demoPre_room(3))
qed

section \<open>The mode after the round boundaries\<close>

text \<open>
  C1.  No handler and no timer closure of the server calls \<open>setMode\<close>.  In every execution
  of the server from its start, the simulation state of every room, when it has one, is
  in mode \<open>race\<close>, and every \<open>gameStateUpdate\<close> that was broadcast carries mode \<open>race\<close>,
  also after the \<open>roundStart\<close> events for build and battle were emitted.
\<close>

theorem mode_stays_race:
  "exec allowed initServer s \<Longrightarrow>
     list_all (\<lambda>r. case gameState r of None \<Rightarrow> True
                    | Some gs \<Rightarrow> currentMode gs = Race \<and> s_mode (getState gs) = Race) (heap s)
   \<and> (\<forall>t c snap. emitted s t c (GameStateUpdate snap) \<longrightarrow> s_mode snap = Race)"
proof -
  assume "exec allowed initServer s"
  moreover have "raceOnly initServer" by (simp add: raceOnly_def initServer_def)
  ultimately have r: "raceOnly s" by (rule raceOnly_exec)
  then have "list_all raceRoom (heap s)" by (simp add: raceOnly_def)
  then have 1: "list_all (\<lambda>r. case gameState r of None \<Rightarrow> True
                    | Some gs \<Rightarrow> currentMode gs = Race \<and> s_mode (getState gs) = Race) (heap s)"
    by (auto simp: list_all_iff raceRoom_def getState_def split: option.splits)
  have 2: "s_mode snap = Race" if "emitted s t c (GameStateUpdate snap)" for t c snap
  proof -
    from that r have "raceUpdate (t, c, GameStateUpdate snap)"
      by (auto simp: emitted_def raceOnly_def list_all_iff)
    then show ?thesis by (simp add: raceUpdate_def)
  qed
  from 1 2 show ?thesis by blast
qed

lemma demo_all:
  "(case run demoAll initServer of
      None \<Rightarrow> False
    | Some s \<Rightarrow> clock s = 126010
        \<and> map (map_option currentMode \<circ> gameState) (heap s) = [Some Race]
        \<and> map (\<lambda>(t, c, e). (t, c)) (outbox s) =
            [(0, ''AAAAAA''), (10, ''AAAAAA''), (3010, ''AAAAAA''), (3043, ''AAAAAA''),
             (3050, ''AAAAAA''), (3060, ''AAAAAA''), (123010, ''AAAAAA''), (126010, ''AAAAAA'')]
        \<and> last (outbox s) = (126010, ''AAAAAA'', RoundStart Build 180))"
  by (simp add: server_defs demoAll_def zeros_code demoDraws_def)

theorem mode_stays_race_witness:
  "(case run demoAll initServer of
      None \<Rightarrow> False
    | Some s \<Rightarrow> emitted s 126010 ''AAAAAA'' (RoundStart Build 180)
        \<and> map (map_option currentMode \<circ> gameState) (heap s) = [Some Race]
        \<and> list_all raceUpdate (outbox s))"
proof -
  from demo_all obtain s where r: "run demoAll initServer = Some s"
    and h: "map (map_option currentMode \<circ> gameState) (heap s) = [Some Race]"
    and l: "last (outbox s) = (126010, ''AAAAAA'', RoundStart Build 180)"
    and o: "outbox s \<noteq> []"
    by (auto split: option.splits)
  have "list_all (\<lambda>_. True) (inbounds demoAll)" by (simp add: list_all_iff)
  from run_exec[OF r this] have e: "exec (\<lambda>_. True) initServer s" .
  from mode_stays_race[OF e]
  have "\<forall>t c snap. emitted s t c (GameStateUpdate snap) \<longrightarrow> s_mode snap = Race" by blast
  then have u: "list_all raceUpdate (outbox s)"
    by (auto simp: list_all_iff raceUpdate_def emitted_def split: event.splits)
  from l o have "emitted s 126010 ''AAAAAA'' (RoundStart Build 180)"
    using last_in_set[OF o] by (simp add: emitted_def)
  with h u show ?thesis by (simp add: r)
qed

section \<open>The last player leaves\<close>






end
